theory Spec2Isabelle
  imports Main "HOL-Library.Word"
begin

unbundle bit_operations_syntax

section \<open>Data model of layers/synchronization\_validation.cpp\<close>

text \<open>
  The Vulkan flag types \<open>VkPipelineStageFlags\<close> and \<open>VkAccessFlags\<close> are 32-bit masks
  (\<open>VkFlags\<close>).  The source includes the header \<open>synchronization_validation.h\<close>, whose
  text is not among the sources; what the source uses from it is taken as a parameter
  or modelled from the spec, as said at each place.  The width of
  \<open>SyncStageAccessFlags\<close> is fixed by that header, so it is left open: a stage/access mask is an
  \<open>'a word\<close> for any width \<open>'a\<close>.  The records below are generic in the type \<open>'f\<close> of
  their stage/access fields, and every function takes \<open>'f\<close> to be \<open>'a word\<close>.  A
  \<open>ResourceUsageTag\<close> is opaque: any type \<open>'t\<close>.
\<close>

type_synonym VkPipelineStageFlags = "32 word"
type_synonym VkAccessFlags = "32 word"
type_synonym VkBuffer = "64 word"

datatype SyncHazard = NONE | READ_AFTER_WRITE | WRITE_AFTER_READ | WRITE_AFTER_WRITE

text \<open>
  Modelled from the spec: the struct \<open>HazardResult\<close> and its method \<open>Set\<close> are declared
  in that header.  The spec gives it a kind and a tag and says that the kind
  \<open>None\<close> carries no tag, so the tag is optional and a default-constructed result has
  none.  The field \<open>tag\<close> of the source is called \<open>htag\<close> here, since \<open>tag\<close> names the
  field of a read record.
\<close>

record 't HazardResult =
  hazard :: SyncHazard
  htag :: "'t option"

definition HazardResult_default :: "'t HazardResult" where
  "HazardResult_default = \<lparr>hazard = NONE, htag = None\<rparr>"

definition Set_hazard :: "SyncHazard \<Rightarrow> 't \<Rightarrow> 't HazardResult \<Rightarrow> 't HazardResult" where
  "Set_hazard new_hazard new_tag h = h\<lparr>hazard := new_hazard, htag := Some new_tag\<rparr>"

text \<open>
  Modelled from the spec: the enumeration \<open>SyncStageAccessIndex\<close> and the table that
  maps each of its values to a stage/access bit and a pipeline-stage bit are generated
  into a header that is not among the sources.  A usage index is represented by the row the table holds for
  it: whether the usage is a read, its stage/access bit and its pipeline-stage bit (the
  spec, 4.2 step 1).  \<open>IsRead\<close>, \<open>FlagBit\<close> and \<open>PipelineStageBit\<close> read that row; the
  source calls \<open>IsRead\<close> on the index in \<open>Update\<close> and on the flag bit of the same index
  in \<open>DetectHazard\<close>, and both classify the same usage.
\<close>

record 'f SyncStageAccessIndex =
  is_read :: bool
  stage_access_bit :: 'f
  stage_mask :: VkPipelineStageFlags

definition IsRead :: "'f SyncStageAccessIndex \<Rightarrow> bool" where
  "IsRead usage_index = is_read usage_index"

definition FlagBit :: "'f SyncStageAccessIndex \<Rightarrow> 'f" where
  "FlagBit usage_index = stage_access_bit usage_index"

definition PipelineStageBit :: "'f SyncStageAccessIndex \<Rightarrow> VkPipelineStageFlags" where
  "PipelineStageBit usage_index = stage_mask usage_index"

text \<open>
  \<open>ResourceAccessState::ReadState\<close> and the fields of \<open>ResourceAccessState\<close>, as the source
  uses them.  \<open>last_reads\<close> is a \<open>std::array\<close>: a list whose length is the array's
  capacity, of which the first \<open>last_read_count\<close> entries are live.  \<open>last_write\<close> is a
  stage/access bit, 0 when there has been no write.
\<close>

record 't ReadState =
  stage :: VkPipelineStageFlags
  barriers :: VkPipelineStageFlags
  tag :: 't

record ('f, 't) ResourceAccessState =
  write_barriers :: 'f
  write_tag :: 't
  last_read_count :: nat
  last_read_stages :: VkPipelineStageFlags
  last_reads :: "'t ReadState list"
  last_write :: 'f

section \<open>Diagnostic strings\<close>

text \<open>
  \<open>string_SyncHazardVUID\<close> and \<open>string_SyncHazard\<close>.  The \<open>default\<close> branch of each switch
  (\<open>assert(0)\<close>, then the "invalid" string) is not reachable from a value of the
  enumeration and has no equation.
\<close>

fun string_SyncHazardVUID :: "SyncHazard \<Rightarrow> string" where
  "string_SyncHazardVUID NONE = ''SYNC-NONE''"
| "string_SyncHazardVUID READ_AFTER_WRITE = ''SYNC-HAZARD-READ_AFTER_WRITE''"
| "string_SyncHazardVUID WRITE_AFTER_READ = ''SYNC-HAZARD-WRITE_AFTER_READ''"
| "string_SyncHazardVUID WRITE_AFTER_WRITE = ''SYNC-HAZARD-WRITE_AFTER_WRITE''"

fun string_SyncHazard :: "SyncHazard \<Rightarrow> string" where
  "string_SyncHazard NONE = ''NONR''"
| "string_SyncHazard READ_AFTER_WRITE = ''READ_AFTER_WRITE''"
| "string_SyncHazard WRITE_AFTER_READ = ''WRITE_AFTER_READ''"
| "string_SyncHazard WRITE_AFTER_WRITE = ''WRITE_AFTER_WRITE''"

section \<open>Stage/access scope calculator\<close>

text \<open>
  \<open>AccessScopeImpl\<close>: the table is a \<open>std::map\<close>, iterated in the order of its entries;
  it is the list of its (key, scope) pairs.  The comparison \<open>flag_mask < bit_scope.first\<close>
  is unsigned.  The loop carries \<open>scope\<close>; \<open>break\<close> returns it.
\<close>

fun AccessScopeImpl_loop :: "'k::len word \<Rightarrow> ('k word \<times> 'a::len word) list \<Rightarrow> 'a word \<Rightarrow> 'a word" where
  "AccessScopeImpl_loop flag_mask [] scope = scope"
| "AccessScopeImpl_loop flag_mask (bit_scope # rest) scope =
     (if flag_mask < fst bit_scope then scope
      else AccessScopeImpl_loop flag_mask rest
             (if flag_mask AND fst bit_scope \<noteq> 0 then scope OR snd bit_scope else scope))"

definition AccessScopeImpl :: "'k::len word \<Rightarrow> ('k word \<times> 'a::len word) list \<Rightarrow> 'a word" where
  "AccessScopeImpl flag_mask table = AccessScopeImpl_loop flag_mask table 0"

text \<open>
  The naive full scan the spec (4.1) accepts in place of \<open>AccessScopeImpl\<close>: the same
  membership test and union for every entry of the table, with no early exit.
\<close>

fun naive_scope_loop :: "'k::len word \<Rightarrow> ('k word \<times> 'a::len word) list \<Rightarrow> 'a word \<Rightarrow> 'a word" where
  "naive_scope_loop flag_mask [] scope = scope"
| "naive_scope_loop flag_mask (bit_scope # rest) scope =
     naive_scope_loop flag_mask rest
       (if flag_mask AND fst bit_scope \<noteq> 0 then scope OR snd bit_scope else scope)"

definition naive_scope :: "'k::len word \<Rightarrow> ('k word \<times> 'a::len word) list \<Rightarrow> 'a word" where
  "naive_scope flag_mask table = naive_scope_loop flag_mask table 0"

text \<open>A key that is a single bit of the flag type.\<close>

definition single_bit :: "'k::len word \<Rightarrow> bool" where
  "single_bit k = list_ex (\<lambda>n. k = 2 ^ n) [0..<LENGTH('k)]"

text \<open>The keys of a table, strictly ascending (unsigned), as a \<open>std::map\<close> lists them.\<close>

fun strictly_ascending :: "'k::len word list \<Rightarrow> bool" where
  "strictly_ascending [] = True"
| "strictly_ascending [k] = True"
| "strictly_ascending (k # k' # ks) = (k < k' \<and> strictly_ascending (k' # ks))"

section \<open>ResourceAccessState\<close>

text \<open>
  Modelled from the spec: the private helpers \<open>IsWriteHazard\<close> and \<open>IsReadHazard\<close> of
  \<open>ResourceAccessState\<close> are defined in the header.  By the spec (4.2, steps 2
  and 3) a usage is a hazard against the recorded write when its stage/access bit is not
  covered by the scope granted to the write, and a usage is a hazard against a read
  record when its pipeline stage is not covered by the barrier scope granted to that
  record.
\<close>

definition IsWriteHazard :: "('a::len word, 't) ResourceAccessState \<Rightarrow> 'a word \<Rightarrow> bool" where
  "IsWriteHazard s usage = (usage AND NOT (write_barriers s) \<noteq> 0)"

definition IsReadHazard :: "VkPipelineStageFlags \<Rightarrow> 't ReadState \<Rightarrow> bool" where
  "IsReadHazard usage_stage read_access = (usage_stage AND NOT (barriers read_access) \<noteq> 0)"

text \<open>
  The scan of \<open>DetectHazard\<close> over \<open>last_reads[0 .. last_read_count)\<close>: \<open>read_index\<close>
  counts up, \<open>result\<close> is the local \<open>hazard\<close>, and \<open>break\<close> returns it.
\<close>

function DetectHazard_reads ::
  "VkPipelineStageFlags \<Rightarrow> 't ReadState list \<Rightarrow> nat \<Rightarrow> nat \<Rightarrow> 't HazardResult \<Rightarrow> 't HazardResult" where
  "DetectHazard_reads usage_stage reads n read_index result =
     (if read_index < n then
        (if IsReadHazard usage_stage (reads ! read_index)
         then Set_hazard WRITE_AFTER_READ (tag (reads ! read_index)) result
         else DetectHazard_reads usage_stage reads n (Suc read_index) result)
      else result)"
  by pat_completeness auto
termination
  by (relation "measure (\<lambda>(usage_stage, reads, n, read_index, result). n - read_index)") auto

declare DetectHazard_reads.simps [simp del]

definition DetectHazard ::
  "('a::len word, 't) ResourceAccessState \<Rightarrow> 'a word SyncStageAccessIndex \<Rightarrow> 't HazardResult" where
  "DetectHazard s usage_index =
     (let result = HazardResult_default; usage = FlagBit usage_index in
      if IsRead usage_index \<and> IsWriteHazard s usage
      then Set_hazard READ_AFTER_WRITE (write_tag s) result
      else if last_write s \<noteq> 0 \<and> IsWriteHazard s usage
      then Set_hazard WRITE_AFTER_WRITE (write_tag s) result
      else DetectHazard_reads (PipelineStageBit usage_index) (last_reads s) (last_read_count s) 0 result)"

text \<open>
  \<open>Update\<close>.  The assertion \<open>last_read_count < last_reads.size()\<close> guards the append: where
  it fails the call ends in the error \<open>CapacityExceeded\<close> and there is no updated state.
  The loop of the first branch overwrites the first live record of the usage's stage.
\<close>

datatype error = CapacityExceeded

function Update_reads ::
  "VkPipelineStageFlags \<Rightarrow> 't \<Rightarrow> 't ReadState list \<Rightarrow> nat \<Rightarrow> nat \<Rightarrow> 't ReadState list" where
  "Update_reads usage_stage new_tag reads n read_index =
     (if read_index < n then
        (if stage (reads ! read_index) = usage_stage
         then reads[read_index := (reads ! read_index)\<lparr>barriers := 0, tag := new_tag\<rparr>]
         else Update_reads usage_stage new_tag reads n (Suc read_index))
      else reads)"
  by pat_completeness auto
termination
  by (relation "measure (\<lambda>(usage_stage, new_tag, reads, n, read_index). n - read_index)") auto

declare Update_reads.simps [simp del]

definition Update ::
  "('a::len word, 't) ResourceAccessState \<Rightarrow> 'a word SyncStageAccessIndex \<Rightarrow> 't \<Rightarrow>
     error + ('a word, 't) ResourceAccessState" where
  "Update s usage_index new_tag =
     (if IsRead usage_index then
        (let usage_stage = PipelineStageBit usage_index in
         if usage_stage AND last_read_stages s \<noteq> 0 then
           Inr (s\<lparr>last_reads :=
                    Update_reads usage_stage new_tag (last_reads s) (last_read_count s) 0\<rparr>)
         else if last_read_count s < length (last_reads s) then
           Inr (s\<lparr>last_reads := (last_reads s)[last_read_count s :=
                      \<lparr>stage = usage_stage, barriers = 0, tag = new_tag\<rparr>],
                    last_read_count := Suc (last_read_count s),
                    last_read_stages := last_read_stages s OR usage_stage\<rparr>)
         else Inl CapacityExceeded)
      else
        Inr (s\<lparr>last_read_count := 0, last_read_stages := 0,
                 write_barriers := 0, write_tag := new_tag, last_write := FlagBit usage_index\<rparr>))"

text \<open>\<open>ApplyExecutionBarrier\<close>: the loop updates the live records in place, in index order.\<close>

function ApplyExecutionBarrier_reads ::
  "VkPipelineStageFlags \<Rightarrow> VkPipelineStageFlags \<Rightarrow> 't ReadState list \<Rightarrow> nat \<Rightarrow> nat \<Rightarrow>
     't ReadState list" where
  "ApplyExecutionBarrier_reads srcStageMask dstStageMask reads n read_index =
     (if read_index < n then
        (let access = reads ! read_index in
         ApplyExecutionBarrier_reads srcStageMask dstStageMask
           (if srcStageMask AND (stage access OR barriers access) \<noteq> 0
            then reads[read_index := access\<lparr>barriers := barriers access OR dstStageMask\<rparr>]
            else reads)
           n (Suc read_index))
      else reads)"
  by pat_completeness auto
termination
  by (relation "measure (\<lambda>(srcStageMask, dstStageMask, reads, n, read_index). n - read_index)") auto

declare ApplyExecutionBarrier_reads.simps [simp del]

definition ApplyExecutionBarrier ::
  "('f, 't) ResourceAccessState \<Rightarrow> VkPipelineStageFlags \<Rightarrow> VkPipelineStageFlags \<Rightarrow>
     ('f, 't) ResourceAccessState" where
  "ApplyExecutionBarrier s srcStageMask dstStageMask =
     s\<lparr>last_reads :=
         ApplyExecutionBarrier_reads srcStageMask dstStageMask (last_reads s) (last_read_count s) 0\<rparr>"

definition ApplyMemoryBarrier ::
  "('a::len word, 't) ResourceAccessState \<Rightarrow> 'a word \<Rightarrow> 'a word \<Rightarrow> ('a word, 't) ResourceAccessState" where
  "ApplyMemoryBarrier s src_scope dst_scope =
     (if src_scope AND (last_write s OR write_barriers s) \<noteq> 0
      then s\<lparr>write_barriers := write_barriers s OR dst_scope\<rparr>
      else s)"

text \<open>
  The invariants of the data model (spec, 3): the live records fit the array, and
  \<open>last_read_stages\<close> is the union of the stages of the live records.
\<close>

definition live_reads :: "('f, 't) ResourceAccessState \<Rightarrow> 't ReadState list" where
  "live_reads s = take (last_read_count s) (last_reads s)"

definition stages_union :: "'t ReadState list \<Rightarrow> VkPipelineStageFlags" where
  "stages_union rs = foldr (\<lambda>r m. stage r OR m) rs 0"

definition read_stages_exact :: "('f, 't) ResourceAccessState \<Rightarrow> bool" where
  "read_stages_exact s =
     (last_read_count s \<le> length (last_reads s) \<and> last_read_stages s = stages_union (live_reads s))"

text \<open>
  The further invariant of the read records (spec, 3): every live record holds a single
  stage bit, and no two live records hold the same stage.
\<close>

definition reads_wf :: "('f, 't) ResourceAccessState \<Rightarrow> bool" where
  "reads_wf s =
     (read_stages_exact s \<and> list_all single_bit (map stage (live_reads s)) \<and>
      distinct (map stage (live_reads s)))"

section \<open>ResourceAccessTracker and the barrier passes of SyncValidator\<close>

text \<open>
  Modelled from the spec: the class \<open>ResourceAccessTracker\<close> is declared in the
  header.  By the spec (3, 4.3) it is a mapping from resource identity to
  \<open>ResourceAccessState\<close>; the lookup of the read-only paths (\<open>Get\<close> on a const tracker) and
  \<open>GetNoInsert\<close> return the entry if present and never create one.
\<close>

type_synonym ('f, 't) ResourceAccessTracker = "VkBuffer \<rightharpoonup> ('f, 't) ResourceAccessState"

definition Get_const ::
  "('f, 't) ResourceAccessTracker \<Rightarrow> VkBuffer \<Rightarrow> ('f, 't) ResourceAccessState option" where
  "Get_const tracker buffer_id = tracker buffer_id"

definition GetNoInsert ::
  "('f, 't) ResourceAccessTracker \<Rightarrow> VkBuffer \<Rightarrow> ('f, 't) ResourceAccessState option" where
  "GetNoInsert tracker buffer_id = tracker buffer_id"

text \<open>
  The fields of \<open>VkMemoryBarrier\<close> and \<open>VkBufferMemoryBarrier\<close> that the source reads.
\<close>

record VkMemoryBarrier =
  srcAccessMask :: VkAccessFlags
  dstAccessMask :: VkAccessFlags

record VkBufferMemoryBarrier = VkMemoryBarrier +
  buffer :: VkBuffer

text \<open>
  Both barrier passes call \<open>AccessScope\<close> on a stage scope that is already a
  \<open>SyncStageAccessFlags\<close> value; that overload is declared in the header and is the
  parameter \<open>AccessScope\<close> of each pass.
\<close>

fun ApplyMemoryBarriers ::
  "('a::len word, 't) ResourceAccessState \<Rightarrow> ('a word \<times> 'a word) list \<Rightarrow>
     ('a word, 't) ResourceAccessState" where
  "ApplyMemoryBarriers s [] = s"
| "ApplyMemoryBarriers s (scope # rest) =
     ApplyMemoryBarriers (ApplyMemoryBarrier s (fst scope) (snd scope)) rest"

definition ApplyGlobalBarriers ::
  "('a::len word \<Rightarrow> VkAccessFlags \<Rightarrow> 'a word) \<Rightarrow> ('a word, 't) ResourceAccessTracker \<Rightarrow>
     VkPipelineStageFlags \<Rightarrow> VkPipelineStageFlags \<Rightarrow> 'a word \<Rightarrow> 'a word \<Rightarrow>
     VkMemoryBarrier list \<Rightarrow> ('a word, 't) ResourceAccessTracker" where
  "ApplyGlobalBarriers AccessScope tracker srcStageMask dstStageMask src_stage_scope
       dst_stage_scope pMemoryBarriers =
     (let barrier_scope =
            map (\<lambda>barrier. (AccessScope src_stage_scope (srcAccessMask barrier),
                             AccessScope dst_stage_scope (dstAccessMask barrier)))
              pMemoryBarriers
      in (\<lambda>tracked. map_option
            (\<lambda>s. ApplyMemoryBarriers (ApplyExecutionBarrier s srcStageMask dstStageMask)
                    barrier_scope)
            (tracker tracked)))"

fun ApplyBufferBarriers ::
  "('a::len word \<Rightarrow> VkAccessFlags \<Rightarrow> 'a word) \<Rightarrow> ('a word, 't) ResourceAccessTracker \<Rightarrow>
     'a word \<Rightarrow> 'a word \<Rightarrow> VkBufferMemoryBarrier list \<Rightarrow> ('a word, 't) ResourceAccessTracker" where
  "ApplyBufferBarriers AccessScope tracker src_stage_scope dst_stage_scope [] = tracker"
| "ApplyBufferBarriers AccessScope tracker src_stage_scope dst_stage_scope (barrier # rest) =
     (case GetNoInsert tracker (buffer barrier) of
        None \<Rightarrow> ApplyBufferBarriers AccessScope tracker src_stage_scope dst_stage_scope rest
      | Some access_state \<Rightarrow>
          ApplyBufferBarriers AccessScope
            (tracker(buffer barrier \<mapsto>
               ApplyMemoryBarrier access_state
                 (AccessScope src_stage_scope (srcAccessMask barrier))
                 (AccessScope dst_stage_scope (dstAccessMask barrier))))
            src_stage_scope dst_stage_scope rest)"

section \<open>Hazard queries of SyncValidator and the validation of a buffer copy\<close>

text \<open>\<open>VkBufferCopy\<close>; its field \<open>size\<close> is called \<open>size_copy\<close> here.\<close>

record VkBufferCopy =
  srcOffset :: "64 word"
  dstOffset :: "64 word"
  size_copy :: "64 word"

definition SyncValidator_DetectHazard ::
  "('a::len word, 't) ResourceAccessTracker \<Rightarrow> 'a word SyncStageAccessIndex \<Rightarrow> VkBuffer \<Rightarrow>
     VkBufferCopy \<Rightarrow> 't HazardResult" where
  "SyncValidator_DetectHazard tracker current_usage buffer_id region =
     (case Get_const tracker buffer_id of
        Some access_state \<Rightarrow> DetectHazard access_state current_usage
      | None \<Rightarrow> HazardResult_default)"

text \<open>
  One call of \<open>log_msg\<close> from \<open>PreCallValidateCmdCopyBuffer\<close>: the object handle, the
  identifier, the format string (\<open>PRIu32\<close> written as \<open>u\<close>) and its three arguments.
  \<open>log_msg\<close> itself belongs to the logging collaborator: it is the parameter \<open>log_msg\<close>,
  which answers each message with the boolean the source ORs into \<open>skip\<close>.
\<close>

record LogMessage =
  msg_object :: VkBuffer
  msg_vuid :: string
  msg_format :: string
  msg_hazard :: string
  msg_handle :: VkBuffer
  msg_region :: nat

text \<open>
  The loop of \<open>PreCallValidateCmdCopyBuffer\<close> over the regions: \<open>region\<close> is the index of
  the head of the remaining regions, \<open>skip\<close> and the messages logged so far are carried.
  \<open>if (hazard.hazard)\<close> tests the kind against \<open>NONE\<close>.  The usages
  \<open>SYNC_TRANSFER_TRANSFER_READ\<close> and \<open>SYNC_TRANSFER_TRANSFER_WRITE\<close> are values of the
  enumeration of usages: parameters.
\<close>

fun CopyBuffer_regions ::
  "(LogMessage \<Rightarrow> bool) \<Rightarrow> 'a::len word SyncStageAccessIndex \<Rightarrow> 'a word SyncStageAccessIndex \<Rightarrow>
     ('a word, 't) ResourceAccessTracker \<Rightarrow> VkBuffer \<Rightarrow> VkBuffer \<Rightarrow> VkBufferCopy list \<Rightarrow>
     nat \<Rightarrow> bool \<Rightarrow> LogMessage list \<Rightarrow> bool \<times> LogMessage list" where
  "CopyBuffer_regions log_msg TRANSFER_READ TRANSFER_WRITE tracker srcBuffer dstBuffer
       [] region skip logged = (skip, logged)"
| "CopyBuffer_regions log_msg TRANSFER_READ TRANSFER_WRITE tracker srcBuffer dstBuffer
       (r # rest) region skip logged =
     (let h = SyncValidator_DetectHazard tracker TRANSFER_READ srcBuffer r;
          (skip', logged') =
            (if hazard h \<noteq> NONE then
               (let m = \<lparr>msg_object = srcBuffer, msg_vuid = string_SyncHazardVUID (hazard h),
                         msg_format = ''Hazard %s for srcBuffer %s, region %u'',
                         msg_hazard = string_SyncHazard (hazard h),
                         msg_handle = srcBuffer, msg_region = region\<rparr>
                in (skip \<or> log_msg m, logged @ [m]))
             else
               (let h = SyncValidator_DetectHazard tracker TRANSFER_WRITE dstBuffer r in
                if hazard h \<noteq> NONE then
                  (let m = \<lparr>msg_object = dstBuffer, msg_vuid = string_SyncHazardVUID (hazard h),
                            msg_format = ''Hazard %s for dstBuffer %s, region %u'',
                            msg_hazard = string_SyncHazard (hazard h),
                            msg_handle = dstBuffer, msg_region = region\<rparr>
                   in (skip \<or> log_msg m, logged @ [m]))
                else (skip, logged)))
      in if skip' then (skip', logged')
         else CopyBuffer_regions log_msg TRANSFER_READ TRANSFER_WRITE tracker srcBuffer dstBuffer
                rest (Suc region) skip' logged')"

text \<open>
  \<open>PreCallValidateCmdCopyBuffer\<close>: the tracker of the command buffer may be absent; the
  result is \<open>skip\<close> and the messages handed to \<open>log_msg\<close>, in order.
\<close>

definition PreCallValidateCmdCopyBuffer ::
  "(LogMessage \<Rightarrow> bool) \<Rightarrow> 'a::len word SyncStageAccessIndex \<Rightarrow> 'a word SyncStageAccessIndex \<Rightarrow>
     ('a word, 't) ResourceAccessTracker option \<Rightarrow> VkBuffer \<Rightarrow> VkBuffer \<Rightarrow> VkBufferCopy list \<Rightarrow>
     bool \<times> LogMessage list" where
  "PreCallValidateCmdCopyBuffer log_msg TRANSFER_READ TRANSFER_WRITE tracker srcBuffer dstBuffer
       pRegions =
     (case tracker of
        None \<Rightarrow> (False, [])
      | Some tr \<Rightarrow>
          CopyBuffer_regions log_msg TRANSFER_READ TRANSFER_WRITE tr srcBuffer dstBuffer
            pRegions 0 False [])"

text \<open>
  The spec's reading (4.5) of the validation, region by region: the message of a region is
  that of the source's read hazard if there is one, otherwise that of the destination's
  write hazard if there is one, otherwise none.
\<close>

definition region_message ::
  "'a::len word SyncStageAccessIndex \<Rightarrow> 'a word SyncStageAccessIndex \<Rightarrow>
     ('a word, 't) ResourceAccessTracker \<Rightarrow> VkBuffer \<Rightarrow> VkBuffer \<Rightarrow> nat \<times> VkBufferCopy \<Rightarrow>
     LogMessage option" where
  "region_message TRANSFER_READ TRANSFER_WRITE tracker srcBuffer dstBuffer ir =
     (let src_kind = hazard (SyncValidator_DetectHazard tracker TRANSFER_READ srcBuffer (snd ir));
          dst_kind = hazard (SyncValidator_DetectHazard tracker TRANSFER_WRITE dstBuffer (snd ir))
      in if src_kind \<noteq> NONE then
           Some \<lparr>msg_object = srcBuffer, msg_vuid = string_SyncHazardVUID src_kind,
                 msg_format = ''Hazard %s for srcBuffer %s, region %u'',
                 msg_hazard = string_SyncHazard src_kind,
                 msg_handle = srcBuffer, msg_region = fst ir\<rparr>
         else if dst_kind \<noteq> NONE then
           Some \<lparr>msg_object = dstBuffer, msg_vuid = string_SyncHazardVUID dst_kind,
                 msg_format = ''Hazard %s for dstBuffer %s, region %u'',
                 msg_hazard = string_SyncHazard dst_kind,
                 msg_handle = dstBuffer, msg_region = fst ir\<rparr>
         else None)"

text \<open>The prefix of a list up to and including its first element that satisfies \<open>P\<close>.\<close>

fun take_through :: "('x \<Rightarrow> bool) \<Rightarrow> 'x list \<Rightarrow> 'x list" where
  "take_through P [] = []"
| "take_through P (x # xs) = (if P x then [x] else x # take_through P xs)"

section \<open>Relations and inputs used by the theorems\<close>

text \<open>What the loop of \<open>ApplyExecutionBarrier\<close> does to one read record.\<close>

definition extend_read ::
  "VkPipelineStageFlags \<Rightarrow> VkPipelineStageFlags \<Rightarrow> 't ReadState \<Rightarrow> 't ReadState" where
  "extend_read srcStageMask dstStageMask access =
     (if srcStageMask AND (stage access OR barriers access) \<noteq> 0
      then access\<lparr>barriers := barriers access OR dstStageMask\<rparr> else access)"

text \<open>
  \<open>write_side_only s s'\<close>: the state \<open>s'\<close> differs from \<open>s\<close> at most in \<open>write_barriers\<close>,
  which has kept every bit it had.  \<open>entry_write_side_only\<close> lifts this to the entry of a
  buffer in two trackers: absent in both, or present in both and related.
\<close>

definition write_side_only ::
  "('a::len word, 't) ResourceAccessState \<Rightarrow> ('a word, 't) ResourceAccessState \<Rightarrow> bool" where
  "write_side_only s s' =
     (last_reads s' = last_reads s \<and> last_read_count s' = last_read_count s \<and>
      last_read_stages s' = last_read_stages s \<and> last_write s' = last_write s \<and>
      write_tag s' = write_tag s \<and>
      write_barriers s AND write_barriers s' = write_barriers s)"

definition entry_write_side_only ::
  "('a::len word, 't) ResourceAccessState option \<Rightarrow> ('a word, 't) ResourceAccessState option \<Rightarrow> bool" where
  "entry_write_side_only e e' =
     (case e of
        None \<Rightarrow> e' = None
      | Some s \<Rightarrow> (case e' of None \<Rightarrow> False | Some s' \<Rightarrow> write_side_only s s'))"

text \<open>
  Concrete inputs: a state with two live read records and a third, dead array slot; a
  write usage and a read usage of the transfer stage; a state left by a write; a tracker
  that holds this state for buffer 1 and nothing for any other buffer; a copy region; a
  buffer barrier on buffer 1; a stand-in for the \<open>AccessScope\<close> overload; and two logging
  collaborators, one that answers every message with false and one that answers every
  message with true.
\<close>

definition ex_state :: "(64 word, nat) ResourceAccessState" where
  "ex_state =
     \<lparr>write_barriers = 0, write_tag = 0, last_read_count = 2, last_read_stages = 3,
      last_reads = [\<lparr>stage = 1, barriers = 0, tag = 1\<rparr>, \<lparr>stage = 2, barriers = 4, tag = 2\<rparr>,
                    \<lparr>stage = 8, barriers = 0, tag = 3\<rparr>],
      last_write = 0\<rparr>"

definition ex_write :: "64 word SyncStageAccessIndex" where
  "ex_write = \<lparr>is_read = False, stage_access_bit = 8, stage_mask = 4096\<rparr>"

definition ex_read :: "64 word SyncStageAccessIndex" where
  "ex_read = \<lparr>is_read = True, stage_access_bit = 4, stage_mask = 4096\<rparr>"

definition ex_written :: "(64 word, nat) ResourceAccessState" where
  "ex_written =
     \<lparr>write_barriers = 0, write_tag = 5, last_read_count = 0, last_read_stages = 0,
      last_reads = [\<lparr>stage = 1, barriers = 0, tag = 1\<rparr>], last_write = 8\<rparr>"

definition ex_tracker :: "(64 word, nat) ResourceAccessTracker" where
  "ex_tracker = [1 \<mapsto> ex_written]"

definition ex_region :: VkBufferCopy where
  "ex_region = \<lparr>srcOffset = 0, dstOffset = 0, size_copy = 16\<rparr>"

definition ex_barrier :: VkBufferMemoryBarrier where
  "ex_barrier = \<lparr>srcAccessMask = 2048, dstAccessMask = 4096, buffer = 1\<rparr>"

definition ex_AccessScope :: "64 word \<Rightarrow> VkAccessFlags \<Rightarrow> 64 word" where
  "ex_AccessScope stage_scope accesses = (if accesses = 0 then 0 else stage_scope)"

definition log_never :: "LogMessage \<Rightarrow> bool" where
  "log_never m = False"

definition log_always :: "LogMessage \<Rightarrow> bool" where
  "log_always m = True"

section \<open>The diagnostic strings\<close>

text \<open>
  The identifiers of all four hazard kinds, and the labels of the three kinds that are
  hazards, are those of the table of the spec (6).
\<close>

lemma hazard_strings_table:
  "string_SyncHazardVUID NONE = ''SYNC-NONE''"
  "string_SyncHazardVUID READ_AFTER_WRITE = ''SYNC-HAZARD-READ_AFTER_WRITE''"
  "string_SyncHazardVUID WRITE_AFTER_READ = ''SYNC-HAZARD-WRITE_AFTER_READ''"
  "string_SyncHazardVUID WRITE_AFTER_WRITE = ''SYNC-HAZARD-WRITE_AFTER_WRITE''"
  "string_SyncHazard READ_AFTER_WRITE = ''READ_AFTER_WRITE''"
  "string_SyncHazard WRITE_AFTER_READ = ''WRITE_AFTER_READ''"
  "string_SyncHazard WRITE_AFTER_WRITE = ''WRITE_AFTER_WRITE''"
  by simp_all

text \<open>
  C4: the table gives the kind \<open>None\<close> the label \<open>NONE\<close>.  \<open>string_SyncHazard\<close> returns
  \<open>NONR\<close> for it: the label of \<open>None\<close> is not the one of the table, while every other
  entry is (\<open>hazard_strings_table\<close>).
\<close>

theorem string_SyncHazard_NONE_is_NONR:
  "string_SyncHazard NONE = ''NONR'' \<and> string_SyncHazard NONE \<noteq> ''NONE''"
  by simp

section \<open>The early exit of the scope calculator\<close>

lemma less_single_bit_disjoint:
  fixes m :: "'k::len word"
  assumes "single_bit k" and "m < k"
  shows "m AND k = 0"
proof -
  from assms(1) obtain n where n: "n < LENGTH('k)" and k: "k = 2 ^ n"
    by (auto simp: single_bit_def list_ex_iff)
  have "uint m < 2 ^ n"
    using assms(2) n unfolding k by (simp add: word_2p_lem word_size)
  then have "uint m div 2 ^ n = 0"
    by (simp add: div_pos_pos_trivial)
  then have "\<not> bit (uint m) n"
    by (simp add: bit_iff_odd)
  then have "\<not> bit m n"
    using n by (simp add: bit_uint_iff)
  then show ?thesis
    unfolding k by (simp add: and_exp_eq_0_iff_not_bit)
qed

lemma strictly_ascending_tail: "strictly_ascending (k # ks) \<Longrightarrow> strictly_ascending ks"
  by (cases ks) simp_all

lemma strictly_ascending_head_less:
  "strictly_ascending (k # ks) \<Longrightarrow> k' \<in> set ks \<Longrightarrow> k < k'"
proof (induction ks arbitrary: k)
  case Nil
  then show ?case by simp
next
  case (Cons a ks)
  then show ?case by (auto dest: order_less_trans)
qed

lemma naive_scope_loop_below_all_keys:
  "list_all single_bit (map fst table) \<Longrightarrow> list_all (\<lambda>k. flag_mask < k) (map fst table) \<Longrightarrow>
     naive_scope_loop flag_mask table scope = scope"
  by (induction table arbitrary: scope) (auto simp: less_single_bit_disjoint)

lemma AccessScopeImpl_loop_eq_naive:
  "strictly_ascending (map fst table) \<Longrightarrow> list_all single_bit (map fst table) \<Longrightarrow>
     AccessScopeImpl_loop flag_mask table scope = naive_scope_loop flag_mask table scope"
proof (induction table arbitrary: scope)
  case Nil
  then show ?case by simp
next
  case (Cons bit_scope rest)
  have asc: "strictly_ascending (map fst rest)"
    using Cons.prems(1) by (auto dest: strictly_ascending_tail)
  have sb: "list_all single_bit (map fst rest)" and sb0: "single_bit (fst bit_scope)"
    using Cons.prems(2) by simp_all
  show ?case
  proof (cases "flag_mask < fst bit_scope")
    case True
    have "list_all (\<lambda>k. flag_mask < k) (map fst rest)"
      unfolding list_all_iff
    proof
      fix k assume "k \<in> set (map fst rest)"
      then have "fst bit_scope < k"
        using Cons.prems(1) strictly_ascending_head_less [of "fst bit_scope" "map fst rest" k]
        by simp
      with True show "flag_mask < k" by (rule order_less_trans)
    qed
    with sb have "naive_scope_loop flag_mask rest scope = scope"
      by (rule naive_scope_loop_below_all_keys)
    with True sb0 show ?thesis
      by (simp add: less_single_bit_disjoint)
  next
    case False
    then show ?thesis
      using Cons.IH [OF asc sb] by simp
  qed
qed

text \<open>
  C8: for every input mask and every table whose keys are single bits in strictly
  ascending order (hence distinct), \<open>AccessScopeImpl\<close>, which stops at the first key
  greater than the mask, returns the same scope as the full scan of the table with the
  same membership test and union.
\<close>

theorem AccessScopeImpl_early_break_refines_full_scan:
  assumes "strictly_ascending (map fst table)" and "list_all single_bit (map fst table)"
  shows "AccessScopeImpl flag_mask table = naive_scope flag_mask table"
proof -
  have "AccessScopeImpl_loop flag_mask table 0 = naive_scope_loop flag_mask table 0"
    using assms by (rule AccessScopeImpl_loop_eq_naive)
  then show ?thesis
    by (simp only: AccessScopeImpl_def naive_scope_def)
qed

theorem AccessScopeImpl_early_break_witness:
  "strictly_ascending (map fst [(1, 3), (2, 12), (8, 48 :: 64 word)] :: 32 word list) \<and>
   list_all single_bit (map fst [(1, 3), (2, 12), (8, 48 :: 64 word)] :: 32 word list) \<and>
   AccessScopeImpl (3 :: 32 word) [(1, 3), (2, 12), (8, 48 :: 64 word)] = 15 \<and>
   naive_scope (3 :: 32 word) [(1, 3), (2, 12), (8, 48 :: 64 word)] = 15"
proof -
  have a: "strictly_ascending (map fst [(1, 3), (2, 12), (8, 48 :: 64 word)] :: 32 word list)"
    by simp
  have b: "list_all single_bit (map fst [(1, 3), (2, 12), (8, 48 :: 64 word)] :: 32 word list)"
    by (simp add: single_bit_def upt_rec)
  have c: "naive_scope (3 :: 32 word) [(1, 3), (2, 12), (8, 48 :: 64 word)] = 15"
    by (simp add: naive_scope_def)
  show ?thesis
    using a b c AccessScopeImpl_early_break_refines_full_scan [OF a b, of 3] by simp
qed

section \<open>Hazard detection on one state\<close>

lemma DetectHazard_reads_done:
  "n \<le> read_index \<Longrightarrow> DetectHazard_reads usage_stage reads n read_index result = result"
  by (subst DetectHazard_reads.simps) simp

lemma DetectHazard_reads_find:
  "n \<le> length reads \<Longrightarrow> read_index \<le> n \<Longrightarrow>
     DetectHazard_reads usage_stage reads n read_index result =
       (case find (IsReadHazard usage_stage) (drop read_index (take n reads)) of
          None \<Rightarrow> result
        | Some r \<Rightarrow> Set_hazard WRITE_AFTER_READ (tag r) result)"
proof (induction usage_stage reads n read_index result rule: DetectHazard_reads.induct)
  case (1 usage_stage reads n read_index result)
  show ?case
  proof (cases "read_index < n")
    case True
    then have split: "drop read_index (take n reads) =
        reads ! read_index # drop (Suc read_index) (take n reads)"
      using "1.prems" by (simp add: Cons_nth_drop_Suc [symmetric])
    show ?thesis
    proof (cases "IsReadHazard usage_stage (reads ! read_index)")
      case True
      with \<open>read_index < n\<close> split show ?thesis
        by (simp add: DetectHazard_reads.simps [of usage_stage reads n read_index])
    next
      case False
      with \<open>read_index < n\<close> split "1.IH" "1.prems" show ?thesis
        by (simp add: DetectHazard_reads.simps [of usage_stage reads n read_index])
    qed
  next
    case False
    with "1.prems" show ?thesis
      by (simp add: DetectHazard_reads_done)
  qed
qed

text \<open>
  C1: for a write-class usage on any state whose live records fit the array,
  \<open>DetectHazard\<close> first tests the write-after-write condition: with a prior write that
  the granted scope does not cover it answers \<open>WRITE_AFTER_WRITE\<close> with the stored write
  tag.  Only otherwise is the answer decided by the live read records in stored order: it
  is \<open>WRITE_AFTER_READ\<close> with the tag of the first record that is a read hazard, and no
  hazard if there is none.  The answer is a single \<open>HazardResult\<close>: one hazard at most.
\<close>

theorem DetectHazard_write_usage:
  assumes "\<not> IsRead usage_index" and "last_read_count s \<le> length (last_reads s)"
  shows "DetectHazard s usage_index =
     (if last_write s \<noteq> 0 \<and> IsWriteHazard s (FlagBit usage_index)
      then \<lparr>hazard = WRITE_AFTER_WRITE, htag = Some (write_tag s)\<rparr>
      else case find (IsReadHazard (PipelineStageBit usage_index)) (live_reads s) of
             None \<Rightarrow> \<lparr>hazard = NONE, htag = None\<rparr>
           | Some r \<Rightarrow> \<lparr>hazard = WRITE_AFTER_READ, htag = Some (tag r)\<rparr>)"
  using assms
  by (simp add: DetectHazard_def DetectHazard_reads_find live_reads_def Set_hazard_def
      HazardResult_default_def split: option.split)

theorem DetectHazard_write_usage_witness:
  "\<not> IsRead \<lparr>is_read = False, stage_access_bit = 8 :: 64 word, stage_mask = 4096\<rparr> \<and>
   last_read_count
     \<lparr>write_barriers = 0 :: 64 word, write_tag = 7 :: nat, last_read_count = 2,
      last_read_stages = 3,
      last_reads = [\<lparr>stage = 1, barriers = 4096, tag = 1\<rparr>, \<lparr>stage = 2, barriers = 0, tag = 2\<rparr>,
                    \<lparr>stage = 4, barriers = 0, tag = 3\<rparr>],
      last_write = 0\<rparr> \<le> 3 \<and>
   DetectHazard
     \<lparr>write_barriers = 0 :: 64 word, write_tag = 7 :: nat, last_read_count = 2,
      last_read_stages = 3,
      last_reads = [\<lparr>stage = 1, barriers = 4096, tag = 1\<rparr>, \<lparr>stage = 2, barriers = 0, tag = 2\<rparr>,
                    \<lparr>stage = 4, barriers = 0, tag = 3\<rparr>],
      last_write = 0\<rparr>
     \<lparr>is_read = False, stage_access_bit = 8, stage_mask = 4096\<rparr> =
   \<lparr>hazard = WRITE_AFTER_READ, htag = Some 2\<rparr>"
  using DetectHazard_write_usage
    [of "\<lparr>is_read = False, stage_access_bit = 8 :: 64 word, stage_mask = 4096\<rparr>"
        "\<lparr>write_barriers = 0 :: 64 word, write_tag = 7 :: nat, last_read_count = 2,
          last_read_stages = 3,
          last_reads = [\<lparr>stage = 1, barriers = 4096, tag = 1\<rparr>, \<lparr>stage = 2, barriers = 0, tag = 2\<rparr>,
                        \<lparr>stage = 4, barriers = 0, tag = 3\<rparr>],
          last_write = 0\<rparr>"]
  by (simp add: IsRead_def PipelineStageBit_def FlagBit_def IsReadHazard_def live_reads_def)

text \<open>
  The first test of \<open>DetectHazard\<close> is the conjunction of \<open>IsRead\<close> and
  \<open>IsWriteHazard\<close>, and its \<open>else\<close> branch is shared: a read-class usage that is no
  hazard against the write is decided by the scan of the read records, like a write.
\<close>

lemma DetectHazard_read_usage_falls_through:
  assumes "IsRead usage_index" and "\<not> IsWriteHazard s (FlagBit usage_index)"
    and "last_read_count s \<le> length (last_reads s)"
  shows "DetectHazard s usage_index =
     (case find (IsReadHazard (PipelineStageBit usage_index)) (live_reads s) of
        None \<Rightarrow> \<lparr>hazard = NONE, htag = None\<rparr>
      | Some r \<Rightarrow> \<lparr>hazard = WRITE_AFTER_READ, htag = Some (tag r)\<rparr>)"
  using assms
  by (simp add: DetectHazard_def DetectHazard_reads_find live_reads_def Set_hazard_def
      HazardResult_default_def split: option.split)

section \<open>Execution barriers on the read records\<close>

lemma ApplyExecutionBarrier_reads_done:
  "n \<le> read_index \<Longrightarrow> ApplyExecutionBarrier_reads src dst reads n read_index = reads"
  by (subst ApplyExecutionBarrier_reads.simps) simp

lemma ApplyExecutionBarrier_reads_step:
  "read_index < n \<Longrightarrow>
     ApplyExecutionBarrier_reads src dst reads n read_index =
       ApplyExecutionBarrier_reads src dst
         (reads[read_index := extend_read src dst (reads ! read_index)]) n (Suc read_index)"
  by (subst ApplyExecutionBarrier_reads.simps) (simp add: extend_read_def Let_def)

lemma ApplyExecutionBarrier_reads_nth:
  "n \<le> length reads \<Longrightarrow>
     length (ApplyExecutionBarrier_reads src dst reads n read_index) = length reads \<and>
     (\<forall>j < length reads. ApplyExecutionBarrier_reads src dst reads n read_index ! j =
        (if read_index \<le> j \<and> j < n then extend_read src dst (reads ! j) else reads ! j))"
proof (induction src dst reads n read_index rule: ApplyExecutionBarrier_reads.induct)
  case (1 src dst reads n read_index)
  show ?case
  proof (cases "read_index < n")
    case True
    let ?reads' = "reads[read_index := extend_read src dst (reads ! read_index)]"
    have eq: "(if src AND (stage (reads ! read_index) OR barriers (reads ! read_index)) \<noteq> 0
               then reads[read_index := (reads ! read_index)
                     \<lparr>barriers := barriers (reads ! read_index) OR dst\<rparr>]
               else reads) = ?reads'"
      by (simp add: extend_read_def)
    have IH: "length (ApplyExecutionBarrier_reads src dst ?reads' n (Suc read_index)) = length ?reads' \<and>
       (\<forall>j < length ?reads'. ApplyExecutionBarrier_reads src dst ?reads' n (Suc read_index) ! j =
          (if Suc read_index \<le> j \<and> j < n then extend_read src dst (?reads' ! j) else ?reads' ! j))"
      using "1.IH" [OF True refl] "1.prems" unfolding eq by simp
    show ?thesis
      unfolding ApplyExecutionBarrier_reads_step [OF True]
      using IH True "1.prems" by (auto simp: nth_list_update)
  next
    case False
    then show ?thesis by (auto simp: ApplyExecutionBarrier_reads_done)
  qed
qed

lemma ApplyExecutionBarrier_reads_map:
  assumes "n \<le> length reads"
  shows "ApplyExecutionBarrier_reads src dst reads n 0 =
           map (extend_read src dst) (take n reads) @ drop n reads"
proof (rule nth_equalityI)
  show "length (ApplyExecutionBarrier_reads src dst reads n 0) =
        length (map (extend_read src dst) (take n reads) @ drop n reads)"
    using assms ApplyExecutionBarrier_reads_nth [OF assms, of src dst 0] by simp
next
  fix j assume "j < length (ApplyExecutionBarrier_reads src dst reads n 0)"
  then have j: "j < length reads"
    using ApplyExecutionBarrier_reads_nth [OF assms, of src dst 0] by simp
  then show "ApplyExecutionBarrier_reads src dst reads n 0 ! j =
        (map (extend_read src dst) (take n reads) @ drop n reads) ! j"
    using assms ApplyExecutionBarrier_reads_nth [OF assms, of src dst 0]
    by (auto simp: nth_append)
qed

text \<open>
  C6: on any state whose live records fit the array, \<open>ApplyExecutionBarrier\<close> changes
  nothing but the live read records, and it ORs \<open>dstStageMask\<close> into the granted scope of
  a live record exactly when \<open>srcStageMask\<close> meets the union of the record's stage and
  its already granted scope; every other record is left as it is.  Hence, if
  \<open>srcStageMask\<close> is disjoint from the stage and the granted scope of every live record,
  the whole state is unchanged.
\<close>

theorem ApplyExecutionBarrier_chains:
  assumes "last_read_count s \<le> length (last_reads s)"
  shows "ApplyExecutionBarrier s srcStageMask dstStageMask =
           s\<lparr>last_reads :=
               map (\<lambda>access. if srcStageMask AND (stage access OR barriers access) \<noteq> 0
                              then access\<lparr>barriers := barriers access OR dstStageMask\<rparr>
                              else access) (live_reads s)
               @ drop (last_read_count s) (last_reads s)\<rparr> \<and>
         (list_all (\<lambda>access. srcStageMask AND (stage access OR barriers access) = 0) (live_reads s) \<longrightarrow>
            ApplyExecutionBarrier s srcStageMask dstStageMask = s)"
proof -
  have ext: "extend_read srcStageMask dstStageMask =
      (\<lambda>access. if srcStageMask AND (stage access OR barriers access) \<noteq> 0
                 then access\<lparr>barriers := barriers access OR dstStageMask\<rparr> else access)"
    by (rule ext) (simp add: extend_read_def)
  have main: "ApplyExecutionBarrier s srcStageMask dstStageMask =
      s\<lparr>last_reads := map (extend_read srcStageMask dstStageMask) (live_reads s)
          @ drop (last_read_count s) (last_reads s)\<rparr>"
    using assms by (simp add: ApplyExecutionBarrier_def ApplyExecutionBarrier_reads_map live_reads_def)
  have same: "map (extend_read srcStageMask dstStageMask) (live_reads s) = live_reads s"
    if "list_all (\<lambda>access. srcStageMask AND (stage access OR barriers access) = 0) (live_reads s)"
    using that by (simp add: list_all_iff extend_read_def map_idI)
  show ?thesis
    using main same unfolding ext [symmetric] by (simp add: live_reads_def)
qed

theorem ApplyExecutionBarrier_chains_witness:
  "last_read_count ex_state \<le> length (last_reads ex_state) \<and>
   ApplyExecutionBarrier ex_state 4 16 =
     ex_state\<lparr>last_reads := [\<lparr>stage = 1, barriers = 0, tag = 1\<rparr>, \<lparr>stage = 2, barriers = 20, tag = 2\<rparr>,
                    \<lparr>stage = 8, barriers = 0, tag = 3\<rparr>]\<rparr> \<and>
   list_all (\<lambda>access. 32 AND (stage access OR barriers access) = 0) (live_reads ex_state) \<and>
   ApplyExecutionBarrier ex_state 32 16 = ex_state"
proof -
  have n: "last_read_count ex_state \<le> length (last_reads ex_state)"
    by (simp add: ex_state_def)
  have d: "list_all (\<lambda>access. 32 AND (stage access OR barriers access) = 0) (live_reads ex_state)"
    by (simp add: ex_state_def live_reads_def)
  show ?thesis
    using n d ApplyExecutionBarrier_chains [OF n, of 4 16] ApplyExecutionBarrier_chains [OF n, of 32 16]
    by (simp add: ex_state_def live_reads_def)
qed

section \<open>The union of the read stages\<close>

lemma stages_union_Nil [simp]: "stages_union [] = 0"
  by (simp add: stages_union_def)

lemma stages_union_Cons [simp]: "stages_union (r # rs) = stage r OR stages_union rs"
  by (simp add: stages_union_def)

lemma stages_union_append: "stages_union (xs @ ys) = stages_union xs OR stages_union ys"
  by (induction xs) (simp_all add: or.assoc)

lemma stages_union_cong: "map stage xs = map stage ys \<Longrightarrow> stages_union xs = stages_union ys"
proof (induction xs arbitrary: ys)
  case Nil
  then show ?case by simp
next
  case (Cons x xs)
  then obtain y ys' where "ys = y # ys'" by (cases ys) auto
  with Cons show ?case by simp
qed

lemma stages_union_member: "r \<in> set rs \<Longrightarrow> stage r AND stages_union rs = stage r"
proof (induction rs)
  case Nil
  then show ?case by simp
next
  case (Cons a rs)
  show ?case
  proof (cases "r = a")
    case True
    then show ?thesis by (simp add: bit_eq_iff bit_and_iff bit_or_iff)
  next
    case False
    with Cons have "stage r AND stages_union rs = stage r" by simp
    then have "\<And>i. bit (stage r) i \<Longrightarrow> bit (stages_union rs) i"
      by (metis bit_and_iff)
    then show ?thesis by (auto simp: bit_eq_iff bit_and_iff bit_or_iff)
  qed
qed

lemma stages_union_hit:
  "st AND stages_union rs \<noteq> 0 \<Longrightarrow> \<exists>r \<in> set rs. st AND stage r \<noteq> 0"
proof (induction rs)
  case Nil
  then show ?case by simp
next
  case (Cons a rs)
  have "st AND (stage a OR stages_union rs) = (st AND stage a) OR (st AND stages_union rs)"
    by (simp add: bit.conj_disj_distrib)
  with Cons.prems have "st AND stage a \<noteq> 0 \<or> st AND stages_union rs \<noteq> 0"
    by auto
  with Cons.IH show ?case by auto
qed

lemma single_bit_nonzero: "single_bit (k :: 'k::len word) \<Longrightarrow> k \<noteq> 0"
  by (auto simp: single_bit_def list_ex_iff)

lemma single_bits_meet:
  fixes a b :: "'k::len word"
  assumes "single_bit a" and "single_bit b" and "a AND b \<noteq> 0"
  shows "a = b"
proof -
  from assms(1) obtain n where n: "n < LENGTH('k)" "a = 2 ^ n"
    by (auto simp: single_bit_def list_ex_iff)
  from assms(2) obtain m where m: "m < LENGTH('k)" "b = 2 ^ m"
    by (auto simp: single_bit_def list_ex_iff)
  have "n = m"
  proof (rule ccontr)
    assume "n \<noteq> m"
    then have "a AND b = 0"
      unfolding n m by (auto simp: bit_eq_iff bit_and_iff bit_exp_iff)
    with assms(3) show False by simp
  qed
  with n m show ?thesis by simp
qed

lemma Update_reads_done:
  "n \<le> read_index \<Longrightarrow> Update_reads usage_stage new_tag reads n read_index = reads"
  by (subst Update_reads.simps) simp

lemma Update_reads_hit:
  "read_index < n \<Longrightarrow> stage (reads ! read_index) = usage_stage \<Longrightarrow>
     Update_reads usage_stage new_tag reads n read_index =
       reads[read_index := (reads ! read_index)\<lparr>barriers := 0, tag := new_tag\<rparr>]"
  by (subst Update_reads.simps) simp

lemma Update_reads_miss:
  "read_index < n \<Longrightarrow> stage (reads ! read_index) \<noteq> usage_stage \<Longrightarrow>
     Update_reads usage_stage new_tag reads n read_index =
       Update_reads usage_stage new_tag reads n (Suc read_index)"
  by (subst Update_reads.simps) simp

lemma Update_reads_stages:
  "n \<le> length reads \<Longrightarrow>
     length (Update_reads usage_stage new_tag reads n read_index) = length reads \<and>
     map stage (Update_reads usage_stage new_tag reads n read_index) = map stage reads"
proof (induction usage_stage new_tag reads n read_index rule: Update_reads.induct)
  case (1 usage_stage new_tag reads n read_index)
  show ?case
  proof (cases "read_index < n")
    case True
    show ?thesis
    proof (cases "stage (reads ! read_index) = usage_stage")
      case hit: True
      have "map stage (reads[read_index := (reads ! read_index)\<lparr>barriers := 0, tag := new_tag\<rparr>]) =
            (map stage reads)[read_index := stage (reads ! read_index)]"
        by (simp add: map_update)
      also have "\<dots> = map stage reads"
        using True "1.prems" by (simp add: list_update_same_conv)
      finally show ?thesis
        using True hit by (simp add: Update_reads_hit)
    next
      case False
      with True "1.IH" "1.prems" show ?thesis by (simp add: Update_reads_miss)
    qed
  next
    case False
    then show ?thesis by (simp add: Update_reads_done)
  qed
qed

lemma Update_reads_first:
  "k < n \<Longrightarrow> read_index \<le> k \<Longrightarrow> stage (reads ! k) = usage_stage \<Longrightarrow>
     (\<forall>j. read_index \<le> j \<and> j < k \<longrightarrow> stage (reads ! j) \<noteq> usage_stage) \<Longrightarrow>
     Update_reads usage_stage new_tag reads n read_index =
       reads[k := (reads ! k)\<lparr>barriers := 0, tag := new_tag\<rparr>]"
proof (induction usage_stage new_tag reads n read_index rule: Update_reads.induct)
  case (1 usage_stage new_tag reads n read_index)
  show ?case
  proof (cases "read_index = k")
    case True
    with "1.prems" show ?thesis by (simp add: Update_reads_hit)
  next
    case False
    with "1.prems" have lt: "read_index < k" and miss: "stage (reads ! read_index) \<noteq> usage_stage"
      by auto
    from lt "1.prems" have "read_index < n" by simp
    moreover have "Update_reads usage_stage new_tag reads n (Suc read_index) =
        reads[k := (reads ! k)\<lparr>barriers := 0, tag := new_tag\<rparr>]"
      using "1.IH" [OF \<open>read_index < n\<close> miss] "1.prems" lt by auto
    ultimately show ?thesis using miss by (simp add: Update_reads_miss)
  qed
qed

lemma read_stages_exact_empty:
  "last_read_count s = 0 \<Longrightarrow> last_read_stages s = 0 \<Longrightarrow> read_stages_exact s"
  by (simp add: read_stages_exact_def live_reads_def)

lemma read_stages_exact_Update:
  assumes "read_stages_exact s" and "Update s usage_index new_tag = Inr s'"
  shows "read_stages_exact s'"
proof (cases "IsRead usage_index")
  case False
  with assms(2) show ?thesis
    by (auto simp: Update_def read_stages_exact_def live_reads_def)
next
  case True
  let ?st = "PipelineStageBit usage_index"
  from assms(1) have n: "last_read_count s \<le> length (last_reads s)"
    and m: "last_read_stages s = stages_union (live_reads s)"
    by (simp_all add: read_stages_exact_def)
  show ?thesis
  proof (cases "?st AND last_read_stages s \<noteq> 0")
    case hit: True
    let ?reads' = "Update_reads ?st new_tag (last_reads s) (last_read_count s) 0"
    from True hit assms(2) have s': "s' = s\<lparr>last_reads := ?reads'\<rparr>"
      by (simp add: Update_def Let_def)
    have "map stage (take (last_read_count s) ?reads') = map stage (take (last_read_count s) (last_reads s))"
      using Update_reads_stages [OF n, of ?st new_tag 0] by (simp add: take_map [symmetric])
    then have "stages_union (take (last_read_count s) ?reads') = stages_union (live_reads s)"
      unfolding live_reads_def by (rule stages_union_cong)
    then show ?thesis
      using n m Update_reads_stages [OF n, of ?st new_tag 0]
      by (simp add: s' read_stages_exact_def live_reads_def)
  next
    case miss: False
    with True assms(2) have room: "last_read_count s < length (last_reads s)"
      by (auto simp: Update_def Let_def split: if_splits)
    let ?r = "\<lparr>stage = ?st, barriers = 0, tag = new_tag\<rparr>"
    from True miss room assms(2) have s': "s' = s\<lparr>last_reads := (last_reads s)[last_read_count s := ?r],
        last_read_count := Suc (last_read_count s),
        last_read_stages := last_read_stages s OR ?st\<rparr>"
      by (simp add: Update_def Let_def)
    have "take (Suc (last_read_count s)) ((last_reads s)[last_read_count s := ?r]) =
          take (last_read_count s) (last_reads s) @ [?r]"
      using room by (simp add: take_Suc_conv_app_nth)
    then show ?thesis
      using room m by (simp add: s' read_stages_exact_def live_reads_def stages_union_append)
  qed
qed

lemma stage_extend_read [simp]: "stage (extend_read src dst r) = stage r"
  by (simp add: extend_read_def)

lemma live_reads_ApplyExecutionBarrier:
  "last_read_count s \<le> length (last_reads s) \<Longrightarrow>
     live_reads (ApplyExecutionBarrier s src dst) = map (extend_read src dst) (live_reads s)"
  by (simp add: ApplyExecutionBarrier_def ApplyExecutionBarrier_reads_map live_reads_def)

lemma read_stages_exact_ApplyExecutionBarrier:
  assumes "read_stages_exact s"
  shows "read_stages_exact (ApplyExecutionBarrier s src dst)"
proof -
  from assms have n: "last_read_count s \<le> length (last_reads s)"
    and m: "last_read_stages s = stages_union (live_reads s)"
    by (simp_all add: read_stages_exact_def)
  have "stages_union (map (extend_read src dst) (live_reads s)) = stages_union (live_reads s)"
    by (rule stages_union_cong) (simp add: comp_def)
  moreover have "last_read_count (ApplyExecutionBarrier s src dst) = last_read_count s"
    "last_read_stages (ApplyExecutionBarrier s src dst) = last_read_stages s"
    "length (last_reads (ApplyExecutionBarrier s src dst)) = length (last_reads s)"
    using n ApplyExecutionBarrier_reads_nth [OF n, of src dst 0]
    by (simp_all add: ApplyExecutionBarrier_def)
  ultimately show ?thesis
    using n m live_reads_ApplyExecutionBarrier [OF n, of src dst]
    by (simp add: read_stages_exact_def)
qed

lemma read_stages_exact_ApplyMemoryBarrier:
  "read_stages_exact s \<Longrightarrow> read_stages_exact (ApplyMemoryBarrier s src_scope dst_scope)"
  by (simp add: ApplyMemoryBarrier_def read_stages_exact_def live_reads_def)

lemma Update_write:
  "\<not> IsRead usage_index \<Longrightarrow>
     Update s usage_index new_tag =
       Inr (s\<lparr>last_read_count := 0, last_read_stages := 0, write_barriers := 0,
              write_tag := new_tag, last_write := FlagBit usage_index\<rparr>)"
  by (simp add: Update_def)

text \<open>
  C2: \<open>last_read_stages\<close> is exactly the union of the stage bits of the live read records
  \<open>last_reads[0 .. last_read_count)\<close>.  This holds of a state with no read record and an
  empty mask, and it is kept by every operation that yields a state: \<open>Update\<close> for a
  read and for a write (whenever it returns a state), \<open>ApplyExecutionBarrier\<close> and
  \<open>ApplyMemoryBarrier\<close>; \<open>DetectHazard\<close> is a query and yields no state.  A write-class
  \<open>Update\<close> always returns a state: one with no live read record and an empty mask,
  that holds the new write.
\<close>

theorem read_stages_invariant:
  assumes "read_stages_exact s"
  shows "(\<forall>s'. Update s usage_index new_tag = Inr s' \<longrightarrow> read_stages_exact s') \<and>
         read_stages_exact (ApplyExecutionBarrier s srcStageMask dstStageMask) \<and>
         read_stages_exact (ApplyMemoryBarrier s src_scope dst_scope) \<and>
         (\<not> IsRead usage_index \<longrightarrow>
            (\<exists>s'. Update s usage_index new_tag = Inr s' \<and> last_read_count s' = 0 \<and>
                   live_reads s' = [] \<and> last_read_stages s' = 0 \<and>
                   write_tag s' = new_tag \<and> last_write s' = FlagBit usage_index)) \<and>
         (last_read_count s0 = 0 \<and> last_read_stages s0 = 0 \<longrightarrow> read_stages_exact s0)"
  using assms
  by (auto simp: read_stages_exact_Update read_stages_exact_ApplyExecutionBarrier
      read_stages_exact_ApplyMemoryBarrier Update_write live_reads_def read_stages_exact_empty)

theorem read_stages_invariant_witness:
  "read_stages_exact ex_state \<and>
   Update ex_state ex_read 9 =
     Inr (ex_state\<lparr>last_reads := [\<lparr>stage = 1, barriers = 0, tag = 1\<rparr>, \<lparr>stage = 2, barriers = 4, tag = 2\<rparr>,
                       \<lparr>stage = 4096, barriers = 0, tag = 9\<rparr>],
            last_read_count := 3, last_read_stages := 4099\<rparr>) \<and>
   read_stages_exact
     (ex_state\<lparr>last_reads := [\<lparr>stage = 1, barriers = 0, tag = 1\<rparr>, \<lparr>stage = 2, barriers = 4, tag = 2\<rparr>,
                       \<lparr>stage = 4096, barriers = 0, tag = 9\<rparr>],
            last_read_count := 3, last_read_stages := 4099\<rparr>) \<and>
   read_stages_exact (ApplyExecutionBarrier ex_state 4 16) \<and>
   read_stages_exact (ApplyMemoryBarrier ex_state 1 2) \<and>
   \<not> IsRead ex_write \<and>
   (\<exists>s'. Update ex_state ex_write 5 = Inr s' \<and> last_read_count s' = 0 \<and> live_reads s' = [] \<and>
         last_read_stages s' = 0 \<and> write_tag s' = 5 \<and> last_write s' = FlagBit ex_write) \<and>
   last_read_count (ex_state\<lparr>last_read_count := 0, last_read_stages := 0\<rparr>) = 0 \<and>
   last_read_stages (ex_state\<lparr>last_read_count := 0, last_read_stages := 0\<rparr>) = 0 \<and>
   read_stages_exact (ex_state\<lparr>last_read_count := 0, last_read_stages := 0\<rparr>)"
proof -
  have h: "read_stages_exact ex_state"
    by (simp add: read_stages_exact_def ex_state_def live_reads_def)
  have w: "\<not> IsRead ex_write"
    by (simp add: IsRead_def ex_write_def)
  have u: "Update ex_state ex_read 9 =
     Inr (ex_state\<lparr>last_reads := [\<lparr>stage = 1, barriers = 0, tag = 1\<rparr>, \<lparr>stage = 2, barriers = 4, tag = 2\<rparr>,
                       \<lparr>stage = 4096, barriers = 0, tag = 9\<rparr>],
            last_read_count := 3, last_read_stages := 4099\<rparr>)"
    by (simp add: Update_def IsRead_def PipelineStageBit_def ex_read_def ex_state_def)
  show ?thesis
    using h w u
      read_stages_invariant [OF h, of ex_read 9 4 16 1 2
        "ex_state\<lparr>last_read_count := 0, last_read_stages := 0\<rparr>"]
      read_stages_invariant [OF h, of ex_write 5 4 16 1 2 ex_state]
    by simp
qed

section \<open>Two reads at one pipeline stage\<close>

lemma reads_wf_lookup:
  assumes wf: "reads_wf s" and sb: "single_bit st" and hit: "st AND last_read_stages s \<noteq> 0"
  shows "\<exists>k < last_read_count s. stage (last_reads s ! k) = st \<and>
           (\<forall>j < last_read_count s. stage (last_reads s ! j) = st \<longrightarrow> j = k)"
proof -
  let ?n = "last_read_count s"
  from wf have n: "?n \<le> length (last_reads s)"
    and m: "last_read_stages s = stages_union (live_reads s)"
    and bits: "list_all single_bit (map stage (live_reads s))"
    and dist: "distinct (map stage (live_reads s))"
    by (simp_all add: reads_wf_def read_stages_exact_def)
  have len: "length (live_reads s) = ?n"
    using n by (simp add: live_reads_def)
  have nth: "live_reads s ! j = last_reads s ! j" if "j < ?n" for j
    using that by (simp add: live_reads_def)
  from hit m obtain r where r: "r \<in> set (live_reads s)" "st AND stage r \<noteq> 0"
    using stages_union_hit [of st "live_reads s"] by auto
  from r(1) bits have "single_bit (stage r)"
    by (simp add: list_all_iff)
  with sb r(2) have "stage r = st"
    using single_bits_meet [of st "stage r"] by simp
  moreover from r(1) len obtain k where k: "k < ?n" "live_reads s ! k = r"
    by (auto simp: in_set_conv_nth)
  ultimately have found: "stage (last_reads s ! k) = st"
    using nth [OF k(1)] by simp
  have "j = k" if "j < ?n" "stage (last_reads s ! j) = st" for j
    using nth_eq_iff_index_eq [OF dist, of j k] that k(1) found len nth by simp
  with k(1) found show ?thesis by blast
qed

lemma Update_read_overwrites:
  assumes wf: "reads_wf s" and rd: "IsRead usage_index"
    and sb: "single_bit (PipelineStageBit usage_index)"
    and hit: "PipelineStageBit usage_index AND last_read_stages s \<noteq> 0"
  shows "\<exists>k < last_read_count s. stage (last_reads s ! k) = PipelineStageBit usage_index \<and>
           (\<forall>j < last_read_count s.
              stage (last_reads s ! j) = PipelineStageBit usage_index \<longrightarrow> j = k) \<and>
           Update s usage_index new_tag =
             Inr (s\<lparr>last_reads := (last_reads s)[k :=
                    \<lparr>stage = PipelineStageBit usage_index, barriers = 0, tag = new_tag\<rparr>]\<rparr>)"
proof -
  let ?st = "PipelineStageBit usage_index"
  from reads_wf_lookup [OF wf sb hit] obtain k where k: "k < last_read_count s"
    "stage (last_reads s ! k) = ?st"
    "\<forall>j < last_read_count s. stage (last_reads s ! j) = ?st \<longrightarrow> j = k"
    by blast
  have first: "\<forall>j. 0 \<le> j \<and> j < k \<longrightarrow> stage (last_reads s ! j) \<noteq> ?st"
  proof (intro allI impI)
    fix j assume "0 \<le> j \<and> j < k"
    with k(1) have "j < last_read_count s" "j \<noteq> k" by simp_all
    with k(3) show "stage (last_reads s ! j) \<noteq> ?st" by blast
  qed
  have rec_eq: "(last_reads s ! k)\<lparr>barriers := 0, tag := new_tag\<rparr> =
        \<lparr>stage = ?st, barriers = 0, tag = new_tag\<rparr>"
    using k(2) by (cases "last_reads s ! k") simp
  have "Update_reads ?st new_tag (last_reads s) (last_read_count s) 0 =
        (last_reads s)[k := (last_reads s ! k)\<lparr>barriers := 0, tag := new_tag\<rparr>]"
    using k(1) _ k(2) first by (rule Update_reads_first) simp
  then have loop: "Update_reads ?st new_tag (last_reads s) (last_read_count s) 0 =
        (last_reads s)[k := \<lparr>stage = ?st, barriers = 0, tag = new_tag\<rparr>]"
    by (simp only: rec_eq)
  have "Update s usage_index new_tag =
      Inr (s\<lparr>last_reads := Update_reads ?st new_tag (last_reads s) (last_read_count s) 0\<rparr>)"
    using rd hit by (simp add: Update_def Let_def)
  then have "Update s usage_index new_tag =
      Inr (s\<lparr>last_reads := (last_reads s)[k := \<lparr>stage = ?st, barriers = 0, tag = new_tag\<rparr>]\<rparr>)"
    by (simp only: loop)
  with k show ?thesis by blast
qed

lemma reads_wf_Update_read:
  assumes wf: "reads_wf s" and rd: "IsRead usage_index"
    and sb: "single_bit (PipelineStageBit usage_index)"
    and up: "Update s usage_index new_tag = Inr s'"
  shows "reads_wf s' \<and> PipelineStageBit usage_index AND last_read_stages s' \<noteq> 0 \<and>
         (\<exists>k < last_read_count s'. last_reads s' ! k =
            \<lparr>stage = PipelineStageBit usage_index, barriers = 0, tag = new_tag\<rparr>)"
proof -
  let ?st = "PipelineStageBit usage_index"
  let ?r = "\<lparr>stage = ?st, barriers = 0, tag = new_tag\<rparr>"
  let ?n = "last_read_count s"
  from wf have ex: "read_stages_exact s"
    and n: "?n \<le> length (last_reads s)"
    and m: "last_read_stages s = stages_union (live_reads s)"
    and bits: "list_all single_bit (map stage (live_reads s))"
    and dist: "distinct (map stage (live_reads s))"
    by (simp_all add: reads_wf_def read_stages_exact_def)
  have ex': "read_stages_exact s'"
    using ex up by (rule read_stages_exact_Update)
  show ?thesis
  proof (cases "?st AND last_read_stages s \<noteq> 0")
    case True
    from Update_read_overwrites [OF wf rd sb True, of new_tag] up
    obtain k where k: "k < ?n" "stage (last_reads s ! k) = ?st"
      and s': "s' = s\<lparr>last_reads := (last_reads s)[k := ?r]\<rparr>"
      by auto
    have "map stage (take ?n ((last_reads s)[k := ?r])) = map stage (take ?n (last_reads s))"
    proof -
      have "map stage ((last_reads s)[k := ?r]) = (map stage (last_reads s))[k := ?st]"
        by (simp add: map_update)
      also have "\<dots> = map stage (last_reads s)"
        using k n by (simp add: list_update_same_conv)
      finally show ?thesis by (simp add: take_map [symmetric])
    qed
    then have "map stage (live_reads s') = map stage (live_reads s)"
      by (simp add: s' live_reads_def)
    moreover have "last_reads s' ! k = ?r"
      using k(1) n by (simp add: s')
    ultimately show ?thesis
      using ex' bits dist True k(1) by (auto simp: reads_wf_def s')
  next
    case False
    with rd up have room: "?n < length (last_reads s)"
      by (auto simp: Update_def Let_def split: if_splits)
    from rd False room up have s': "s' = s\<lparr>last_reads := (last_reads s)[?n := ?r],
        last_read_count := Suc ?n, last_read_stages := last_read_stages s OR ?st\<rparr>"
      by (simp add: Update_def Let_def)
    have live': "live_reads s' = live_reads s @ [?r]"
      using room by (simp add: s' live_reads_def take_Suc_conv_app_nth)
    have fresh: "?st \<notin> set (map stage (live_reads s))"
    proof
      assume "?st \<in> set (map stage (live_reads s))"
      then obtain r where "r \<in> set (live_reads s)" "stage r = ?st" by auto
      then have "?st AND stages_union (live_reads s) = ?st"
        using stages_union_member [of r "live_reads s"] by simp
      with False m single_bit_nonzero [OF sb] show False by simp
    qed
    have "?st AND (last_read_stages s OR ?st) = ?st"
      by (simp add: bit_eq_iff bit_and_iff bit_or_iff)
    then have "?st AND last_read_stages s' \<noteq> 0"
      using single_bit_nonzero [OF sb] by (simp add: s')
    moreover have "last_reads s' ! ?n = ?r" "?n < last_read_count s'"
      using room by (simp_all add: s')
    ultimately show ?thesis
      using ex' bits dist sb fresh live' by (auto simp: reads_wf_def)
  qed
qed

lemma ApplyExecutionBarrier_fields:
  "last_read_count (ApplyExecutionBarrier s src dst) = last_read_count s"
  "last_read_stages (ApplyExecutionBarrier s src dst) = last_read_stages s"
  by (simp_all add: ApplyExecutionBarrier_def)

lemma ApplyExecutionBarrier_nth:
  assumes "last_read_count s \<le> length (last_reads s)" and "k < last_read_count s"
  shows "last_reads (ApplyExecutionBarrier s src dst) ! k = extend_read src dst (last_reads s ! k)"
proof -
  from assms have "k < length (last_reads s)" by simp
  with ApplyExecutionBarrier_reads_nth [OF assms(1), of src dst 0] assms(2)
  show ?thesis by (simp add: ApplyExecutionBarrier_def)
qed

lemma reads_wf_ApplyExecutionBarrier:
  assumes "reads_wf s"
  shows "reads_wf (ApplyExecutionBarrier s src dst)"
proof -
  from assms have ex: "read_stages_exact s"
    and n: "last_read_count s \<le> length (last_reads s)"
    and bits: "list_all single_bit (map stage (live_reads s))"
    and dist: "distinct (map stage (live_reads s))"
    by (simp_all add: reads_wf_def read_stages_exact_def)
  have "map stage (live_reads (ApplyExecutionBarrier s src dst)) = map stage (live_reads s)"
    by (simp add: live_reads_ApplyExecutionBarrier [OF n] comp_def)
  with bits dist read_stages_exact_ApplyExecutionBarrier [OF ex, of src dst]
  show ?thesis by (simp add: reads_wf_def)
qed

text \<open>
  C7: let a state satisfy the invariants of the read records, and let two read-class
  usages have the same pipeline stage, a single bit.  After the first \<open>Update\<close> has
  recorded its tag, the second \<open>Update\<close> succeeds and changes nothing but one live record,
  the record of that stage, which now holds the later tag and an empty granted scope:
  the record count and \<open>last_read_stages\<close> are those left by the first \<open>Update\<close>, and the
  record is the only live record of its stage.  The scope is cleared also when an
  execution barrier has extended it between the two reads.
\<close>

theorem Update_same_stage_reads_collapse:
  assumes wf: "reads_wf s"
    and rd1: "IsRead usage1" and rd2: "IsRead usage2"
    and same: "PipelineStageBit usage2 = PipelineStageBit usage1"
    and sb: "single_bit (PipelineStageBit usage1)"
    and up1: "Update s usage1 tag1 = Inr s1"
  shows "\<exists>s2 k. Update s1 usage2 tag2 = Inr s2 \<and> k < last_read_count s1 \<and>
           last_reads s1 ! k = \<lparr>stage = PipelineStageBit usage1, barriers = 0, tag = tag1\<rparr> \<and>
           s2 = s1\<lparr>last_reads := (last_reads s1)[k :=
                    \<lparr>stage = PipelineStageBit usage1, barriers = 0, tag = tag2\<rparr>]\<rparr> \<and>
           last_read_count s2 = last_read_count s1 \<and>
           last_read_stages s2 = last_read_stages s1 \<and>
           (\<forall>j < last_read_count s2.
              (stage (last_reads s2 ! j) = PipelineStageBit usage1) = (j = k)) \<and>
           Update (ApplyExecutionBarrier s1 srcStageMask dstStageMask) usage2 tag2 =
             Inr ((ApplyExecutionBarrier s1 srcStageMask dstStageMask)
                    \<lparr>last_reads := (last_reads (ApplyExecutionBarrier s1 srcStageMask dstStageMask))[k :=
                       \<lparr>stage = PipelineStageBit usage1, barriers = 0, tag = tag2\<rparr>]\<rparr>)"
proof -
  let ?st = "PipelineStageBit usage1"
  from reads_wf_Update_read [OF wf rd1 sb up1]
  obtain k1 where wf1: "reads_wf s1" and hit: "?st AND last_read_stages s1 \<noteq> 0"
    and k1: "k1 < last_read_count s1" "last_reads s1 ! k1 = \<lparr>stage = ?st, barriers = 0, tag = tag1\<rparr>"
    by blast
  from wf1 have n: "last_read_count s1 \<le> length (last_reads s1)"
    by (simp add: reads_wf_def read_stages_exact_def)
  from sb hit same have sb2: "single_bit (PipelineStageBit usage2)"
    and hit2: "PipelineStageBit usage2 AND last_read_stages s1 \<noteq> 0"
    by simp_all
  from Update_read_overwrites [OF wf1 rd2 sb2 hit2, of tag2, unfolded same]
  obtain k where k: "k < last_read_count s1" "stage (last_reads s1 ! k) = ?st"
    and uniq: "\<forall>j < last_read_count s1. stage (last_reads s1 ! j) = ?st \<longrightarrow> j = k"
    and up2: "Update s1 usage2 tag2 =
        Inr (s1\<lparr>last_reads := (last_reads s1)[k := \<lparr>stage = ?st, barriers = 0, tag = tag2\<rparr>]\<rparr>)"
    by blast
  have "stage (last_reads s1 ! k1) = ?st"
    by (simp only: k1(2) ReadState.simps)
  with uniq k1(1) have "k1 = k" by blast
  with k1 have at_k: "last_reads s1 ! k = \<lparr>stage = ?st, barriers = 0, tag = tag1\<rparr>" by simp
  let ?s2 = "s1\<lparr>last_reads := (last_reads s1)[k := \<lparr>stage = ?st, barriers = 0, tag = tag2\<rparr>]\<rparr>"
  have one: "(stage (last_reads ?s2 ! j) = ?st) = (j = k)" if j: "j < last_read_count ?s2" for j
  proof (cases "j = k")
    case True
    then show ?thesis using k(1) n by simp
  next
    case False
    from j have "j < last_read_count s1" by simp
    with uniq False have "stage (last_reads s1 ! j) \<noteq> ?st" by blast
    with False show ?thesis by simp
  qed
  let ?b = "ApplyExecutionBarrier s1 srcStageMask dstStageMask"
  have wfb: "reads_wf ?b"
    using wf1 by (rule reads_wf_ApplyExecutionBarrier)
  have hitb: "PipelineStageBit usage2 AND last_read_stages ?b \<noteq> 0"
    using hit2 by (simp add: ApplyExecutionBarrier_fields)
  from Update_read_overwrites [OF wfb rd2 sb2 hitb, of tag2, unfolded same]
  obtain kb where kb: "kb < last_read_count ?b" "stage (last_reads ?b ! kb) = ?st"
    and upb: "Update ?b usage2 tag2 =
        Inr (?b\<lparr>last_reads := (last_reads ?b)[kb := \<lparr>stage = ?st, barriers = 0, tag = tag2\<rparr>]\<rparr>)"
    by blast
  from kb(1) have kb1: "kb < last_read_count s1"
    by (simp add: ApplyExecutionBarrier_fields)
  from kb(2) have "stage (last_reads s1 ! kb) = ?st"
    by (simp add: ApplyExecutionBarrier_nth [OF n kb1])
  with uniq kb1 have "kb = k" by blast
  with upb have upb': "Update ?b usage2 tag2 =
        Inr (?b\<lparr>last_reads := (last_reads ?b)[k := \<lparr>stage = ?st, barriers = 0, tag = tag2\<rparr>]\<rparr>)"
    by simp
  show ?thesis
    using up2 k(1) at_k one upb' by (intro exI [of _ ?s2] exI [of _ k]) simp
qed

theorem Update_same_stage_reads_collapse_witness:
  "reads_wf ex_state \<and> IsRead ex_read \<and> single_bit (PipelineStageBit ex_read) \<and>
   Update ex_state ex_read 10 =
     Inr (ex_state\<lparr>last_reads := [\<lparr>stage = 1, barriers = 0, tag = 1\<rparr>, \<lparr>stage = 2, barriers = 4, tag = 2\<rparr>,
                       \<lparr>stage = 4096, barriers = 0, tag = 10\<rparr>],
            last_read_count := 3, last_read_stages := 4099\<rparr>) \<and>
   Update
     (ex_state\<lparr>last_reads := [\<lparr>stage = 1, barriers = 0, tag = 1\<rparr>, \<lparr>stage = 2, barriers = 4, tag = 2\<rparr>,
                       \<lparr>stage = 4096, barriers = 0, tag = 10\<rparr>],
            last_read_count := 3, last_read_stages := 4099\<rparr>) ex_read 20 =
     Inr (ex_state\<lparr>last_reads := [\<lparr>stage = 1, barriers = 0, tag = 1\<rparr>, \<lparr>stage = 2, barriers = 4, tag = 2\<rparr>,
                       \<lparr>stage = 4096, barriers = 0, tag = 20\<rparr>],
            last_read_count := 3, last_read_stages := 4099\<rparr>)"
proof -
  let ?s1 = "ex_state\<lparr>last_reads := [\<lparr>stage = 1, barriers = 0, tag = 1\<rparr>, \<lparr>stage = 2, barriers = 4, tag = 2\<rparr>,
                       \<lparr>stage = 4096, barriers = 0, tag = 10\<rparr>],
            last_read_count := 3, last_read_stages := 4099\<rparr>"
  have wf: "reads_wf ex_state"
    by (simp add: reads_wf_def read_stages_exact_def)
       (simp add: ex_state_def live_reads_def single_bit_def upt_rec)
  have rd: "IsRead ex_read"
    by (simp add: IsRead_def ex_read_def)
  have sb: "single_bit (PipelineStageBit ex_read)"
    by (simp add: PipelineStageBit_def ex_read_def single_bit_def upt_rec)
  have u: "Update ex_state ex_read 10 = Inr ?s1"
    by (simp add: Update_def IsRead_def PipelineStageBit_def ex_read_def ex_state_def)
  from Update_same_stage_reads_collapse [OF wf rd rd refl sb u, of 20]
  obtain s2 k where s2: "Update ?s1 ex_read 20 = Inr s2" "k < last_read_count ?s1"
    "last_reads ?s1 ! k = \<lparr>stage = PipelineStageBit ex_read, barriers = 0, tag = 10\<rparr>"
    "s2 = ?s1\<lparr>last_reads := (last_reads ?s1)[k :=
        \<lparr>stage = PipelineStageBit ex_read, barriers = 0, tag = 20\<rparr>]\<rparr>"
    by blast
  from s2(2) have "k = 0 \<or> k = 1 \<or> k = 2" by auto
  with s2(3) have "k = 2"
    by (auto simp: ex_state_def PipelineStageBit_def ex_read_def)
  with s2(1) s2(4) have "Update ?s1 ex_read 20 =
     Inr (ex_state\<lparr>last_reads := [\<lparr>stage = 1, barriers = 0, tag = 1\<rparr>, \<lparr>stage = 2, barriers = 4, tag = 2\<rparr>,
                       \<lparr>stage = 4096, barriers = 0, tag = 20\<rparr>],
            last_read_count := 3, last_read_stages := 4099\<rparr>)"
    by (simp add: ex_state_def PipelineStageBit_def ex_read_def)
  with wf rd sb u show ?thesis by simp
qed

section \<open>A write, a covering memory barrier, a read\<close>

text \<open>
  C3: on any state, and so on a fresh one, record a write whose access bit is \<open>A\<close>,
  apply a memory barrier whose source scope covers \<open>A\<close> and whose destination scope
  covers \<open>B\<close>, and query a read-class usage whose stage/access bit lies within \<open>B\<close>:
  the write is recorded and the query reports no hazard.
\<close>

theorem write_barrier_read_no_hazard:
  assumes wr: "\<not> IsRead write_usage" and rd: "IsRead read_usage"
    and bit: "FlagBit write_usage \<noteq> 0"
    and src: "src_scope AND FlagBit write_usage = FlagBit write_usage"
    and dst: "dst_scope AND B = B"
    and req: "FlagBit read_usage AND B = FlagBit read_usage"
  shows "\<exists>s1. Update s write_usage tag1 = Inr s1 \<and>
           DetectHazard (ApplyMemoryBarrier s1 src_scope dst_scope) read_usage =
             \<lparr>hazard = NONE, htag = None\<rparr>"
proof -
  let ?s1 = "s\<lparr>last_read_count := 0, last_read_stages := 0, write_barriers := 0,
                 write_tag := tag1, last_write := FlagBit write_usage\<rparr>"
  have up: "Update s write_usage tag1 = Inr ?s1"
    using wr by (rule Update_write)
  have applied: "ApplyMemoryBarrier ?s1 src_scope dst_scope = ?s1\<lparr>write_barriers := dst_scope\<rparr>"
    using bit src by (simp add: ApplyMemoryBarrier_def)
  have "\<And>i. bit (FlagBit read_usage) i \<Longrightarrow> bit dst_scope i"
    by (metis bit_and_iff dst req)
  then have covered: "FlagBit read_usage AND NOT dst_scope = 0"
    by (auto simp: bit_eq_iff bit_and_iff bit_not_iff)
  have "DetectHazard (?s1\<lparr>write_barriers := dst_scope\<rparr>) read_usage = \<lparr>hazard = NONE, htag = None\<rparr>"
    using covered
    by (simp add: DetectHazard_def IsWriteHazard_def DetectHazard_reads_done HazardResult_default_def)
  with up applied show ?thesis by simp
qed

theorem write_barrier_read_no_hazard_witness:
  "\<not> IsRead ex_write \<and> IsRead ex_read \<and> FlagBit ex_write \<noteq> 0 \<and>
   8 AND FlagBit ex_write = FlagBit ex_write \<and> (12 :: 64 word) AND 4 = 4 \<and>
   FlagBit ex_read AND 4 = FlagBit ex_read \<and>
   (\<exists>s1. Update ex_state ex_write 1 = Inr s1 \<and>
         DetectHazard (ApplyMemoryBarrier s1 8 12) ex_read = \<lparr>hazard = NONE, htag = None\<rparr>)"
proof -
  have wr: "\<not> IsRead ex_write" and rd: "IsRead ex_read"
    by (simp_all add: IsRead_def ex_write_def ex_read_def)
  have b: "FlagBit ex_write \<noteq> 0" and src: "8 AND FlagBit ex_write = FlagBit ex_write"
    by (simp_all add: FlagBit_def ex_write_def)
  have dst: "(12 :: 64 word) AND 4 = 4" by simp
  have req: "FlagBit ex_read AND 4 = FlagBit ex_read"
    by (simp add: FlagBit_def ex_read_def)
  show ?thesis
    using wr rd b src dst req
      write_barrier_read_no_hazard [OF wr rd b src dst req, of ex_state 1]
    by simp
qed

section \<open>Trackers: absent resources and the barrier passes\<close>

text \<open>
  C9: for every tracker and every resource the tracker has no entry for, the hazard
  query of the validator returns the result with no hazard and no tag, for any usage and
  region.  The query takes the tracker read-only and returns the hazard result alone, so
  the entries of the tracker are what they were.
\<close>

theorem SyncValidator_DetectHazard_absent:
  "tracker buffer_id = None \<Longrightarrow>
     SyncValidator_DetectHazard tracker current_usage buffer_id region =
       \<lparr>hazard = NONE, htag = None\<rparr>"
  by (simp add: SyncValidator_DetectHazard_def Get_const_def HazardResult_default_def)

theorem SyncValidator_DetectHazard_absent_witness:
  "ex_tracker 2 = None \<and>
   SyncValidator_DetectHazard ex_tracker ex_write 2 ex_region = \<lparr>hazard = NONE, htag = None\<rparr>"
proof -
  have a: "ex_tracker 2 = None"
    by (simp add: ex_tracker_def)
  show ?thesis
    using a SyncValidator_DetectHazard_absent [of ex_tracker 2 ex_write ex_region] by simp
qed

lemma write_side_only_refl: "write_side_only s s"
  by (simp add: write_side_only_def)

lemma write_side_only_trans:
  assumes "write_side_only s s'" and "write_side_only s' s''"
  shows "write_side_only s s''"
proof -
  from assms have a: "write_barriers s AND write_barriers s' = write_barriers s"
    and b: "write_barriers s' AND write_barriers s'' = write_barriers s'"
    by (simp_all add: write_side_only_def)
  have "write_barriers s AND write_barriers s'' =
        (write_barriers s AND write_barriers s') AND write_barriers s''"
    by (simp only: a)
  also have "\<dots> = write_barriers s AND (write_barriers s' AND write_barriers s'')"
    by (simp only: and.assoc)
  also have "\<dots> = write_barriers s"
    by (simp only: a b)
  finally show ?thesis
    using assms by (simp add: write_side_only_def)
qed

lemma and_or_absorb_word: "w AND (w OR d) = (w :: 'a::len word)"
  by (auto simp: bit_eq_iff bit_and_iff bit_or_iff)

lemma write_side_only_ApplyMemoryBarrier:
  "write_side_only s (ApplyMemoryBarrier s src_scope dst_scope)"
  by (simp add: write_side_only_def ApplyMemoryBarrier_def and_or_absorb_word)

lemma write_side_only_ApplyMemoryBarriers:
  "write_side_only s (ApplyMemoryBarriers s scopes)"
proof (induction scopes arbitrary: s)
  case Nil
  then show ?case by (simp add: write_side_only_refl)
next
  case (Cons scope rest)
  have "write_side_only s (ApplyMemoryBarrier s (fst scope) (snd scope))"
    by (rule write_side_only_ApplyMemoryBarrier)
  moreover have "write_side_only (ApplyMemoryBarrier s (fst scope) (snd scope))
      (ApplyMemoryBarriers (ApplyMemoryBarrier s (fst scope) (snd scope)) rest)"
    by (rule Cons.IH)
  ultimately have "write_side_only s
      (ApplyMemoryBarriers (ApplyMemoryBarrier s (fst scope) (snd scope)) rest)"
    by (rule write_side_only_trans)
  then show ?case by simp
qed

lemma entry_write_side_only_refl: "entry_write_side_only e e"
  by (simp add: entry_write_side_only_def write_side_only_refl split: option.split)

lemma entry_write_side_only_trans:
  assumes "entry_write_side_only e e'" and "entry_write_side_only e' e''"
  shows "entry_write_side_only e e''"
proof (cases e)
  case None
  with assms show ?thesis by (simp add: entry_write_side_only_def)
next
  case (Some s)
  with assms(1) obtain s' where s': "e' = Some s'" "write_side_only s s'"
    by (auto simp: entry_write_side_only_def split: option.splits)
  with assms(2) obtain s'' where s'': "e'' = Some s''" "write_side_only s' s''"
    by (auto simp: entry_write_side_only_def split: option.splits)
  from s'(2) s''(2) have "write_side_only s s''"
    by (rule write_side_only_trans)
  with Some s''(1) show ?thesis by (simp add: entry_write_side_only_def)
qed

lemma ApplyBufferBarriers_entry:
  "entry_write_side_only (tracker k)
     (ApplyBufferBarriers AccessScope tracker src_stage_scope dst_stage_scope pBarriers k)"
proof (induction pBarriers arbitrary: tracker)
  case Nil
  then show ?case by (simp add: entry_write_side_only_refl)
next
  case (Cons barrier rest)
  show ?case
  proof (cases "tracker (buffer barrier)")
    case None
    then show ?thesis using Cons.IH [of tracker] by (simp add: GetNoInsert_def)
  next
    case (Some access_state)
    let ?tr = "tracker(buffer barrier \<mapsto>
        ApplyMemoryBarrier access_state (AccessScope src_stage_scope (srcAccessMask barrier))
          (AccessScope dst_stage_scope (dstAccessMask barrier)))"
    have "entry_write_side_only (tracker k) (?tr k)"
      using Some
      by (simp add: entry_write_side_only_def write_side_only_ApplyMemoryBarrier
          write_side_only_refl split: option.split)
    moreover have "entry_write_side_only (?tr k)
        (ApplyBufferBarriers AccessScope ?tr src_stage_scope dst_stage_scope rest k)"
      by (rule Cons.IH)
    ultimately have "entry_write_side_only (tracker k)
        (ApplyBufferBarriers AccessScope ?tr src_stage_scope dst_stage_scope rest k)"
      by (rule entry_write_side_only_trans)
    then show ?thesis
      using Some by (simp add: GetNoInsert_def)
  qed
qed

lemma ApplyBufferBarriers_unnamed:
  "k \<notin> set (map buffer pBarriers) \<Longrightarrow>
     ApplyBufferBarriers AccessScope tracker src_stage_scope dst_stage_scope pBarriers k = tracker k"
  by (induction pBarriers arbitrary: tracker) (auto simp: GetNoInsert_def split: option.split)

lemma ApplyGlobalBarriers_entry:
  "entry_write_side_only
     (map_option (\<lambda>s. ApplyExecutionBarrier s srcStageMask dstStageMask) (tracker k))
     (ApplyGlobalBarriers AccessScope tracker srcStageMask dstStageMask src_stage_scope
        dst_stage_scope pMemoryBarriers k)"
  by (cases "tracker k")
     (simp_all add: ApplyGlobalBarriers_def entry_write_side_only_def
        write_side_only_ApplyMemoryBarriers)

text \<open>
  C10: for every tracker, buffer and list of buffer barriers, \<open>ApplyBufferBarriers\<close>
  leaves a buffer without entry without entry, and changes the state of a tracked buffer
  at most in \<open>write_barriers\<close>, which only gains bits: the read records (stage, tag and
  granted scope of each), the read count, \<open>last_read_stages\<close>, \<open>last_write\<close> and
  \<open>write_tag\<close> are unchanged; the entry of a buffer that no barrier names is unchanged
  altogether.  The global pass applies the execution barrier to every tracked state: with
  an empty list of memory barriers that is all it does, and with any list its result
  differs from the state after the execution barrier at most in \<open>write_barriers\<close>.
\<close>

theorem ApplyBufferBarriers_write_side_only:
  "entry_write_side_only (tracker k)
     (ApplyBufferBarriers AccessScope tracker src_stage_scope dst_stage_scope pBarriers k) \<and>
   (k \<notin> set (map buffer pBarriers) \<longrightarrow>
      ApplyBufferBarriers AccessScope tracker src_stage_scope dst_stage_scope pBarriers k = tracker k) \<and>
   ApplyGlobalBarriers AccessScope tracker srcStageMask dstStageMask src_stage_scope
       dst_stage_scope [] k =
     map_option (\<lambda>s. ApplyExecutionBarrier s srcStageMask dstStageMask) (tracker k) \<and>
   entry_write_side_only
     (map_option (\<lambda>s. ApplyExecutionBarrier s srcStageMask dstStageMask) (tracker k))
     (ApplyGlobalBarriers AccessScope tracker srcStageMask dstStageMask src_stage_scope
        dst_stage_scope pMemoryBarriers k)"
  using ApplyBufferBarriers_entry [of tracker k AccessScope src_stage_scope dst_stage_scope pBarriers]
    ApplyBufferBarriers_unnamed [of k pBarriers AccessScope tracker src_stage_scope dst_stage_scope]
    ApplyGlobalBarriers_entry [of srcStageMask dstStageMask tracker k AccessScope src_stage_scope
      dst_stage_scope pMemoryBarriers]
  by (simp add: ApplyGlobalBarriers_def)

theorem ApplyBufferBarriers_write_side_only_witness:
  "2 \<notin> set (map buffer [ex_barrier]) \<and>
   ApplyBufferBarriers ex_AccessScope ex_tracker 8 12 [ex_barrier] 2 = ex_tracker 2 \<and>
   ApplyBufferBarriers ex_AccessScope ex_tracker 8 12 [ex_barrier] 1 =
     Some (ex_written\<lparr>write_barriers := 12\<rparr>) \<and>
   entry_write_side_only (ex_tracker 1)
     (ApplyBufferBarriers ex_AccessScope ex_tracker 8 12 [ex_barrier] 1) \<and>
   ApplyGlobalBarriers ex_AccessScope [1 \<mapsto> ex_state] 4 16 8 12 [] 1 =
     Some (ex_state\<lparr>last_reads := [\<lparr>stage = 1, barriers = 0, tag = 1\<rparr>,
                                       \<lparr>stage = 2, barriers = 20, tag = 2\<rparr>,
                                       \<lparr>stage = 8, barriers = 0, tag = 3\<rparr>]\<rparr>)"
proof -
  have a: "2 \<notin> set (map buffer [ex_barrier])"
    by (simp add: ex_barrier_def)
  have b: "ApplyBufferBarriers ex_AccessScope ex_tracker 8 12 [ex_barrier] 1 =
     Some (ex_written\<lparr>write_barriers := 12\<rparr>)"
    by (simp add: GetNoInsert_def ex_tracker_def ex_barrier_def ex_AccessScope_def
        ApplyMemoryBarrier_def ex_written_def)
  have n: "last_read_count ex_state \<le> length (last_reads ex_state)"
    by (simp add: ex_state_def)
  have c: "ApplyExecutionBarrier ex_state 4 16 =
     ex_state\<lparr>last_reads := [\<lparr>stage = 1, barriers = 0, tag = 1\<rparr>, \<lparr>stage = 2, barriers = 20, tag = 2\<rparr>,
                    \<lparr>stage = 8, barriers = 0, tag = 3\<rparr>]\<rparr>"
    by (simp add: ApplyExecutionBarrier_def ApplyExecutionBarrier_reads_map [OF n])
       (simp add: ex_state_def extend_read_def)
  show ?thesis
    using a b c
      ApplyBufferBarriers_write_side_only [of ex_tracker 2 ex_AccessScope 8 12 "[ex_barrier]" 4 16 "[]"]
      ApplyBufferBarriers_write_side_only [of ex_tracker 1 ex_AccessScope 8 12 "[ex_barrier]" 4 16 "[]"]
      ApplyBufferBarriers_write_side_only [of "[1 \<mapsto> ex_state]" 1 ex_AccessScope 8 12 "[]" 4 16 "[]"]
    by simp
qed

section \<open>Validation of a buffer copy\<close>

lemma CopyBuffer_regions_step:
  "CopyBuffer_regions log_msg TRANSFER_READ TRANSFER_WRITE tracker srcBuffer dstBuffer
       (r # rest) region False logged =
     (case region_message TRANSFER_READ TRANSFER_WRITE tracker srcBuffer dstBuffer (region, r) of
        None \<Rightarrow>
          CopyBuffer_regions log_msg TRANSFER_READ TRANSFER_WRITE tracker srcBuffer dstBuffer
            rest (Suc region) False logged
      | Some m \<Rightarrow>
          if log_msg m then (True, logged @ [m])
          else CopyBuffer_regions log_msg TRANSFER_READ TRANSFER_WRITE tracker srcBuffer dstBuffer
                 rest (Suc region) False (logged @ [m]))"
  by (simp add: region_message_def Let_def)

lemma CopyBuffer_regions_closed:
  "CopyBuffer_regions log_msg TRANSFER_READ TRANSFER_WRITE tracker srcBuffer dstBuffer
       pRegions region False logged =
     (list_ex log_msg
        (take_through log_msg
           (List.map_filter (region_message TRANSFER_READ TRANSFER_WRITE tracker srcBuffer dstBuffer)
              (List.enumerate region pRegions))),
      logged @
        take_through log_msg
          (List.map_filter (region_message TRANSFER_READ TRANSFER_WRITE tracker srcBuffer dstBuffer)
             (List.enumerate region pRegions)))"
proof (induction pRegions arbitrary: region logged)
  case Nil
  then show ?case by (simp add: map_filter_simps)
next
  case (Cons r rest)
  show ?case
  proof (cases "region_message TRANSFER_READ TRANSFER_WRITE tracker srcBuffer dstBuffer (region, r)")
    case None
    then show ?thesis
      unfolding CopyBuffer_regions_step by (simp add: Cons.IH map_filter_simps)
  next
    case (Some m)
    then show ?thesis
      unfolding CopyBuffer_regions_step by (simp add: Cons.IH map_filter_simps)
  qed
qed

lemma take_through_all: "(\<forall>x. P x) \<Longrightarrow> take_through P xs = take 1 xs"
  by (cases xs) simp_all

lemma map_filter_nonempty:
  "(List.map_filter f xs \<noteq> []) = (\<exists>x \<in> set xs. f x \<noteq> None)"
  by (induction xs) (auto simp: map_filter_simps split: option.splits)

lemma region_message_None:
  "(region_message TRANSFER_READ TRANSFER_WRITE tracker srcBuffer dstBuffer ir = None) =
     (hazard (SyncValidator_DetectHazard tracker TRANSFER_READ srcBuffer (snd ir)) = NONE \<and>
      hazard (SyncValidator_DetectHazard tracker TRANSFER_WRITE dstBuffer (snd ir)) = NONE)"
  by (simp add: region_message_def Let_def)

lemma ex_src_hazard:
  "SyncValidator_DetectHazard ex_tracker ex_read 1 ex_region =
     \<lparr>hazard = READ_AFTER_WRITE, htag = Some 5\<rparr>"
  by (simp add: SyncValidator_DetectHazard_def Get_const_def ex_tracker_def DetectHazard_def
      IsRead_def FlagBit_def IsWriteHazard_def ex_read_def ex_written_def Set_hazard_def
      HazardResult_default_def)

lemma ex_region_message:
  "region_message ex_read ex_write ex_tracker 1 2 (n, ex_region) =
     Some \<lparr>msg_object = 1, msg_vuid = ''SYNC-HAZARD-READ_AFTER_WRITE'',
           msg_format = ''Hazard %s for srcBuffer %s, region %u'',
           msg_hazard = ''READ_AFTER_WRITE'', msg_handle = 1, msg_region = n\<rparr>"
  by (simp add: region_message_def ex_src_hazard)

text \<open>
  C5, as stated, fails: \<open>skip\<close> is the answer of \<open>log_msg\<close> to the reports, not the fact
  that a hazard was found.  With a logging collaborator that answers false, the source
  buffer of region 0 has a read-after-write hazard, yet region 1 is checked and reported
  as well, and the call returns false.
\<close>

theorem PreCallValidateCmdCopyBuffer_unanswered_report:
  "hazard (SyncValidator_DetectHazard ex_tracker ex_read 1 ex_region) = READ_AFTER_WRITE \<and>
   PreCallValidateCmdCopyBuffer log_never ex_read ex_write (Some ex_tracker) 1 2
       [ex_region, ex_region] =
     (False,
      [\<lparr>msg_object = 1, msg_vuid = ''SYNC-HAZARD-READ_AFTER_WRITE'',
        msg_format = ''Hazard %s for srcBuffer %s, region %u'',
        msg_hazard = ''READ_AFTER_WRITE'', msg_handle = 1, msg_region = 0\<rparr>,
       \<lparr>msg_object = 1, msg_vuid = ''SYNC-HAZARD-READ_AFTER_WRITE'',
        msg_format = ''Hazard %s for srcBuffer %s, region %u'',
        msg_hazard = ''READ_AFTER_WRITE'', msg_handle = 1, msg_region = 1\<rparr>])"
  by (simp add: PreCallValidateCmdCopyBuffer_def ex_src_hazard log_never_def)

text \<open>
  C5, amended: without a tracker the call logs nothing and returns false.  With a
  tracker, the regions are processed in order; within a region the source is checked for
  a read-class hazard first and the destination for a write-class hazard only if the
  source has none; the messages logged are those of the regions up to and including the
  first whose message \<open>log_msg\<close> answers with true, and the call returns true exactly when
  \<open>log_msg\<close> answered some logged message with true.  When \<open>log_msg\<close> answers every
  message with true, only the first hazardous region is reported and the call returns
  true if and only if some region has a hazard.
\<close>

theorem PreCallValidateCmdCopyBuffer_short_circuit:
  "PreCallValidateCmdCopyBuffer log_msg TRANSFER_READ TRANSFER_WRITE None srcBuffer dstBuffer
       pRegions = (False, []) \<and>
   PreCallValidateCmdCopyBuffer log_msg TRANSFER_READ TRANSFER_WRITE (Some tracker) srcBuffer
       dstBuffer pRegions =
     (list_ex log_msg
        (take_through log_msg
           (List.map_filter (region_message TRANSFER_READ TRANSFER_WRITE tracker srcBuffer dstBuffer)
              (List.enumerate 0 pRegions))),
      take_through log_msg
        (List.map_filter (region_message TRANSFER_READ TRANSFER_WRITE tracker srcBuffer dstBuffer)
           (List.enumerate 0 pRegions))) \<and>
   ((\<forall>m. log_msg m) \<longrightarrow>
      PreCallValidateCmdCopyBuffer log_msg TRANSFER_READ TRANSFER_WRITE (Some tracker) srcBuffer
          dstBuffer pRegions =
        (\<exists>r \<in> set pRegions.
            hazard (SyncValidator_DetectHazard tracker TRANSFER_READ srcBuffer r) \<noteq> NONE \<or>
            hazard (SyncValidator_DetectHazard tracker TRANSFER_WRITE dstBuffer r) \<noteq> NONE,
         take 1
           (List.map_filter (region_message TRANSFER_READ TRANSFER_WRITE tracker srcBuffer dstBuffer)
              (List.enumerate 0 pRegions))))"
proof -
  let ?msgs = "List.map_filter (region_message TRANSFER_READ TRANSFER_WRITE tracker srcBuffer dstBuffer)
      (List.enumerate 0 pRegions)"
  have closed: "PreCallValidateCmdCopyBuffer log_msg TRANSFER_READ TRANSFER_WRITE (Some tracker)
      srcBuffer dstBuffer pRegions =
      (list_ex log_msg (take_through log_msg ?msgs), take_through log_msg ?msgs)"
    by (simp add: PreCallValidateCmdCopyBuffer_def CopyBuffer_regions_closed)
  have some: "(?msgs \<noteq> []) =
      (\<exists>r \<in> set pRegions.
         hazard (SyncValidator_DetectHazard tracker TRANSFER_READ srcBuffer r) \<noteq> NONE \<or>
         hazard (SyncValidator_DetectHazard tracker TRANSFER_WRITE dstBuffer r) \<noteq> NONE)"
  proof -
    have "(?msgs \<noteq> []) =
        (\<exists>ir \<in> set (List.enumerate 0 pRegions).
           region_message TRANSFER_READ TRANSFER_WRITE tracker srcBuffer dstBuffer ir \<noteq> None)"
      by (rule map_filter_nonempty)
    also have "\<dots> = (\<exists>r \<in> snd ` set (List.enumerate 0 pRegions).
         hazard (SyncValidator_DetectHazard tracker TRANSFER_READ srcBuffer r) \<noteq> NONE \<or>
         hazard (SyncValidator_DetectHazard tracker TRANSFER_WRITE dstBuffer r) \<noteq> NONE)"
      by (simp add: region_message_None)
    also have "snd ` set (List.enumerate 0 pRegions) = set pRegions"
      by (metis map_snd_enumerate set_map)
    finally show ?thesis .
  qed
  have always: "PreCallValidateCmdCopyBuffer log_msg TRANSFER_READ TRANSFER_WRITE (Some tracker)
      srcBuffer dstBuffer pRegions =
      (\<exists>r \<in> set pRegions.
          hazard (SyncValidator_DetectHazard tracker TRANSFER_READ srcBuffer r) \<noteq> NONE \<or>
          hazard (SyncValidator_DetectHazard tracker TRANSFER_WRITE dstBuffer r) \<noteq> NONE,
       take 1 ?msgs)" if all: "\<forall>m. log_msg m"
  proof -
    have t: "take_through log_msg ?msgs = take 1 ?msgs"
      using all by (rule take_through_all)
    have "list_ex log_msg (take 1 ?msgs) = (?msgs \<noteq> [])"
      using all by (cases ?msgs) simp_all
    with closed t some show ?thesis by simp
  qed
  have absent: "PreCallValidateCmdCopyBuffer log_msg TRANSFER_READ TRANSFER_WRITE None srcBuffer
      dstBuffer pRegions = (False, [])"
    by (simp add: PreCallValidateCmdCopyBuffer_def)
  from absent closed always show ?thesis by blast
qed

theorem PreCallValidateCmdCopyBuffer_short_circuit_witness:
  "(\<forall>m. log_always m) \<and>
   PreCallValidateCmdCopyBuffer log_always ex_read ex_write (Some ex_tracker) 1 2
       [ex_region, ex_region] =
     (True,
      [\<lparr>msg_object = 1, msg_vuid = ''SYNC-HAZARD-READ_AFTER_WRITE'',
        msg_format = ''Hazard %s for srcBuffer %s, region %u'',
        msg_hazard = ''READ_AFTER_WRITE'', msg_handle = 1, msg_region = 0\<rparr>])"
proof -
  have a: "\<forall>m. log_always m"
    by (simp add: log_always_def)
  have "take 1 (List.map_filter (region_message ex_read ex_write ex_tracker 1 2)
            (List.enumerate 0 [ex_region, ex_region])) =
        [\<lparr>msg_object = 1, msg_vuid = ''SYNC-HAZARD-READ_AFTER_WRITE'',
          msg_format = ''Hazard %s for srcBuffer %s, region %u'',
          msg_hazard = ''READ_AFTER_WRITE'', msg_handle = 1, msg_region = 0\<rparr>]"
    by (simp add: ex_region_message)
  moreover have "hazard (SyncValidator_DetectHazard ex_tracker ex_read 1 ex_region) \<noteq> NONE"
    by (simp add: ex_src_hazard)
  moreover from a PreCallValidateCmdCopyBuffer_short_circuit
      [of log_always ex_read ex_write 1 2 "[ex_region, ex_region]" ex_tracker]
  have "PreCallValidateCmdCopyBuffer log_always ex_read ex_write (Some ex_tracker) 1 2
          [ex_region, ex_region] =
        (\<exists>r \<in> set [ex_region, ex_region].
            hazard (SyncValidator_DetectHazard ex_tracker ex_read 1 r) \<noteq> NONE \<or>
            hazard (SyncValidator_DetectHazard ex_tracker ex_write 2 r) \<noteq> NONE,
         take 1 (List.map_filter (region_message ex_read ex_write ex_tracker 1 2)
            (List.enumerate 0 [ex_region, ex_region])))"
    by blast
  ultimately show ?thesis
    using a by simp
qed

end
